theory Spec2Isabelle
  imports Complex_Main "HOL-Library.Product_Lexorder"
begin

section \<open>Errors\<close>

text \<open>
  The exceptions that the modelled code can raise. \<open>ValueError\<close> carries its message:
  the message \<open>''Invalid periodicity value.''\<close> is the one written in
  \<^verbatim>\<open>Habit.increment_completion_date\<close>; the other messages label the errors of the
  Python library (\<^verbatim>\<open>datetime.replace\<close>, \<^verbatim>\<open>list.index\<close>, \<^verbatim>\<open>datetime + timedelta\<close>).
\<close>

datatype error = ValueError string | OverflowError string

section \<open>Python's \<^verbatim>\<open>datetime\<close>\<close>

text \<open>
  A naive \<^verbatim>\<open>datetime\<close> object: seven fields, compared as the tuple
  (year, month, day, hour, minute, second, microsecond).
\<close>

record datetime =
  year :: nat
  month :: nat
  day :: nat
  hour :: nat
  minute :: nat
  second :: nat
  microsecond :: nat

definition MINYEAR :: nat where "MINYEAR = 1"
definition MAXYEAR :: nat where "MAXYEAR = 9999"

definition is_leap :: "nat \<Rightarrow> bool" where
  "is_leap y \<longleftrightarrow> y mod 4 = 0 \<and> (y mod 100 \<noteq> 0 \<or> y mod 400 = 0)"

definition days_in_month :: "nat \<Rightarrow> nat \<Rightarrow> nat" where
  "days_in_month y m =
     (if m = 2 then (if is_leap y then 29 else 28)
      else if m = 4 \<or> m = 6 \<or> m = 9 \<or> m = 11 then 30 else 31)"

text \<open>The values a \<^verbatim>\<open>datetime\<close> object can hold.\<close>

definition valid_dt :: "datetime \<Rightarrow> bool" where
  "valid_dt d \<longleftrightarrow>
     MINYEAR \<le> year d \<and> year d \<le> MAXYEAR \<and> 1 \<le> month d \<and> month d \<le> 12 \<and>
     1 \<le> day d \<and> day d \<le> days_in_month (year d) (month d) \<and>
     hour d < 24 \<and> minute d < 60 \<and> second d < 60 \<and> microsecond d < 1000000"

definition dt_tuple :: "datetime \<Rightarrow> nat \<times> nat \<times> nat \<times> nat \<times> nat \<times> nat \<times> nat" where
  "dt_tuple d = (year d, month d, day d, hour d, minute d, second d, microsecond d)"

text \<open>\<^verbatim>\<open>a < b\<close> and \<^verbatim>\<open>a <= b\<close> on datetimes: the lexicographic order of the tuples.\<close>

definition dt_less :: "datetime \<Rightarrow> datetime \<Rightarrow> bool" where
  "dt_less a b \<longleftrightarrow> dt_tuple a < dt_tuple b"

definition dt_le :: "datetime \<Rightarrow> datetime \<Rightarrow> bool" where
  "dt_le a b \<longleftrightarrow> dt_tuple a \<le> dt_tuple b"

text \<open>
  \<^verbatim>\<open>d.replace(hour=h, minute=mi, second=s)\<close>. The source passes the literals
  (0, 0, 0) and (23, 59, 59) only, which the library accepts; every other field,
  the microsecond included, is kept.
\<close>

definition replace_time :: "datetime \<Rightarrow> nat \<Rightarrow> nat \<Rightarrow> nat \<Rightarrow> datetime" where
  "replace_time d h mi s = d\<lparr>hour := h, minute := mi, second := s\<rparr>"

text \<open>
  \<^verbatim>\<open>d.replace(year=y, month=m, day=dd)\<close>: the library builds a new object and checks
  the year, the month and the day of the month, in this order, raising \<^verbatim>\<open>ValueError\<close>.
\<close>

definition replace_date :: "datetime \<Rightarrow> nat \<Rightarrow> nat \<Rightarrow> nat \<Rightarrow> error + datetime" where
  "replace_date d y m dd =
     (if \<not> (MINYEAR \<le> y \<and> y \<le> MAXYEAR) then Inl (ValueError ''year is out of range'')
      else if \<not> (1 \<le> m \<and> m \<le> 12) then Inl (ValueError ''month must be in 1..12'')
      else if \<not> (1 \<le> dd \<and> dd \<le> days_in_month y m)
        then Inl (ValueError ''day is out of range for month'')
      else Inr (d\<lparr>year := y, month := m, day := dd\<rparr>))"

text \<open>The calendar day after a date, the time of day kept.\<close>

definition next_day :: "datetime \<Rightarrow> datetime" where
  "next_day d =
     (if day d < days_in_month (year d) (month d) then d\<lparr>day := day d + 1\<rparr>
      else if month d < 12 then d\<lparr>month := month d + 1, day := 1\<rparr>
      else d\<lparr>year := year d + 1, month := 1, day := 1\<rparr>)"

primrec add_days :: "nat \<Rightarrow> datetime \<Rightarrow> datetime" where
  "add_days 0 d = d"
| "add_days (Suc n) d = add_days n (next_day d)"

text \<open>
  \<^verbatim>\<open>timedelta(days=a, weeks=b)\<close>, as the number of whole days it holds (the source
  builds no other kind).
\<close>

definition timedelta :: "nat \<Rightarrow> nat \<Rightarrow> nat" where
  "timedelta days weeks = days + 7 * weeks"

text \<open>
  \<^verbatim>\<open>d + delta\<close>: the date moved forward by the days of \<open>delta\<close>; the library raises
  \<^verbatim>\<open>OverflowError\<close> when the result lies after year 9999.
\<close>

definition dt_add :: "datetime \<Rightarrow> nat \<Rightarrow> error + datetime" where
  "dt_add d delta =
     (let r = add_days delta d
      in if year r > MAXYEAR then Inl (OverflowError ''date value out of range'') else Inr r)"

section \<open>Decoration\<close>

text \<open>
  \<^verbatim>\<open>exp\<close> is a Python number. It is an \<^verbatim>\<open>int\<close> in every constructor call of the tests,
  and the start-up sweep stores the result of a true division \<^verbatim>\<open>/ 2\<close> in it, so the
  model holds its numeric value as a rational.
\<close>

record decoration =
  name :: string
  room :: string
  state :: string
  exp :: rat

text \<open>\<^verbatim>\<open>Decoration.exp_states\<close>, in insertion order.\<close>

definition exp_states :: "(int \<times> string) list" where
  "exp_states = [(0, ''Old''), (16, ''Normal''), (32, ''Good''), (64, ''Great'')]"

text \<open>What the notifications of the core say, in the order they are issued.\<close>

datatype event =
    Upgraded string string
  | Downgraded string string
  | Too_early string
  | New_record string int
  | Checked_in string int

text \<open>\<^verbatim>\<open>xs.index(x)\<close>: the first position of \<open>x\<close>, \<^verbatim>\<open>ValueError\<close> when absent.\<close>

fun index_of :: "'a list \<Rightarrow> 'a \<Rightarrow> error + nat" where
  "index_of [] x = Inl (ValueError ''x is not in list'')"
| "index_of (y # ys) x =
     (if y = x then Inr 0
      else (case index_of ys x of Inl e \<Rightarrow> Inl e | Inr i \<Rightarrow> Inr (Suc i)))"

text \<open>
  The \<^verbatim>\<open>for ... break\<close> of \<^verbatim>\<open>update_state\<close>: the label of the first entry whose
  threshold the experience reaches, the old label when there is none.
\<close>

fun first_reached :: "(int \<times> string) list \<Rightarrow> rat \<Rightarrow> string \<Rightarrow> string" where
  "first_reached [] e old = old"
| "first_reached ((t, s) # ts) e old = (if e \<ge> of_int t then s else first_reached ts e old)"

text \<open>
  \<^verbatim>\<open>sorted(Decoration.exp_states.items(), reverse=True)\<close>: the items are pairs with
  distinct thresholds, so their order is the order of the thresholds, largest first.
\<close>

definition sorted_states :: "(int \<times> string) list" where
  "sorted_states = rev (sort_key fst exp_states)"

text \<open>
  \<^verbatim>\<open>Decoration.update_state\<close>. The result is the decoration after the call, the
  notifications issued, and how the call ended: \<open>Inr ()\<close> for a return, \<open>Inl e\<close> for an
  exception. The state is assigned before the ranks are looked up, so the decoration
  holds the new state also when the lookup of the previous label raises.
\<close>

definition update_state :: "decoration \<Rightarrow> decoration \<times> event list \<times> (error + unit)" where
  "update_state d =
     (let previous_state = state d;
          d' = d\<lparr>state := first_reached sorted_states (exp d) (state d)\<rparr>
      in if state d' \<noteq> previous_state then
           (case index_of (map snd exp_states) previous_state of
              Inl e \<Rightarrow> (d', [], Inl e)
            | Inr previous_state_index \<Rightarrow>
               (case index_of (map snd exp_states) (state d') of
                  Inl e \<Rightarrow> (d', [], Inl e)
                | Inr new_state_index \<Rightarrow>
                    if new_state_index > previous_state_index
                    then (d', [Upgraded (name d') (state d')], Inr ())
                    else (d', [Downgraded (name d') (state d')], Inr ())))
         else (d', [], Inr ()))"

section \<open>Habit\<close>

text \<open>
  The decoration of a habit is held in the habit's record: the operations modelled here
  reach a decoration through one habit only. \<^verbatim>\<open>fails\<close>, \<^verbatim>\<open>streak\<close> and
  \<^verbatim>\<open>longest_streak\<close> are Python integers.
\<close>

record habit =
  name :: string
  periodicity :: int
  decoration :: decoration
  next_completion_date :: datetime
  fails :: int
  streak :: int
  longest_streak :: int

text \<open>\<^verbatim>\<open>Habit.exp_values\<close> and \<^verbatim>\<open>dict.get(key, default)\<close>.\<close>

definition exp_values :: "int \<rightharpoonup> int" where
  "exp_values = [1 \<mapsto> 1, 2 \<mapsto> 8, 3 \<mapsto> 16, 4 \<mapsto> 32]"

definition dict_get :: "('k \<rightharpoonup> 'v) \<Rightarrow> 'k \<Rightarrow> 'v \<Rightarrow> 'v" where
  "dict_get m k dflt = (case m k of None \<Rightarrow> dflt | Some v \<Rightarrow> v)"

text \<open>\<^verbatim>\<open>Habit.increment_completion_date\<close>, the periodicity passed explicitly.\<close>

definition increment_completion_date :: "int \<Rightarrow> datetime \<Rightarrow> error + datetime" where
  "increment_completion_date p date =
     (if p = 1 then dt_add date (timedelta 1 0)
      else if p = 2 then dt_add date (timedelta 0 1)
      else if p = 3 then
        replace_date date (year date + month date div 12) (month date mod 12 + 1)
          (min (day date) 28)
      else if p = 4 then replace_date date (year date + 1) (month date) (day date)
      else Inl (ValueError ''Invalid periodicity value.''))"

text \<open>\<^verbatim>\<open>Habit.calculate_completion_date\<close>; \<open>now\<close> is the value of \<^verbatim>\<open>datetime.now()\<close>.\<close>

definition calculate_completion_date :: "int \<Rightarrow> datetime \<Rightarrow> error + datetime" where
  "calculate_completion_date p now = increment_completion_date p now"

text \<open>The two bounds that \<^verbatim>\<open>check_in\<close> and \<^verbatim>\<open>calculate_fails\<close> compute.\<close>

definition completion_date_start :: "habit \<Rightarrow> datetime" where
  "completion_date_start h = replace_time (next_completion_date h) 0 0 0"

definition completion_date_end :: "habit \<Rightarrow> datetime" where
  "completion_date_end h = replace_time (next_completion_date h) 23 59 59"

text \<open>
  The \<^verbatim>\<open>while\<close> loop of \<^verbatim>\<open>Habit.calculate_fails\<close> on the habit and the flag
  \<^verbatim>\<open>fails_detected\<close>. \<open>None\<close> stands for a loop that never ends; an exception of
  the increment leaves the loop with the habit as it is then, the date not assigned.
\<close>

partial_function (option) fails_loop ::
  "datetime \<Rightarrow> habit \<Rightarrow> bool \<Rightarrow> (habit \<times> bool \<times> (error + unit)) option" where
  "fails_loop now h fails_detected =
     (if dt_less (completion_date_end h) now then
        (case increment_completion_date (periodicity h) (next_completion_date h) of
           Inl e \<Rightarrow> Some (h, fails_detected, Inl e)
         | Inr d \<Rightarrow> fails_loop now (h\<lparr>next_completion_date := d, fails := fails h + 1\<rparr>) True)
      else Some (h, fails_detected, Inr ()))"

text \<open>
  \<^verbatim>\<open>Habit.calculate_fails\<close>: the habit after the call and how the call ended
  (\<open>Inr b\<close>: it returned \<open>b\<close>; \<open>Inl e\<close>: it raised \<open>e\<close>), \<open>None\<close> if the loop never ends.
\<close>

definition calculate_fails :: "datetime \<Rightarrow> habit \<Rightarrow> (habit \<times> (error + bool)) option" where
  "calculate_fails now h =
     (case fails_loop now h False of
        None \<Rightarrow> None
      | Some (h1, fails_detected, Inl e) \<Rightarrow> Some (h1, Inl e)
      | Some (h1, fails_detected, Inr u) \<Rightarrow>
          if fails_detected then
            (let h2 = (if streak h1 > longest_streak h1
                       then h1\<lparr>longest_streak := streak h1\<rparr> else h1)
             in Some (h2\<lparr>streak := 0\<rparr>, Inr True))
          else Some (h1, Inr False))"

text \<open>
  \<^verbatim>\<open>Habit.check_in\<close>: the habit after the call, the notifications issued and how the
  call ended. Log records and the prompt \<^verbatim>\<open>type_ok\<close> are left out. The streak and
  the experience are assigned before the state update and the date increment, so the
  habit holds them also when one of these raises.
\<close>

definition check_in :: "datetime \<Rightarrow> habit \<Rightarrow> habit \<times> event list \<times> (error + bool)" where
  "check_in now h =
     (if dt_less now (completion_date_start h) then (h, [Too_early (name h)], Inr False)
      else if dt_le (completion_date_start h) now \<and> dt_le now (completion_date_end h) then
        (let h1 = h\<lparr>streak := streak h + 1\<rparr>;
             h2 = h1\<lparr>decoration := (decoration h1)
                     \<lparr>exp := exp (decoration h1) + of_int (dict_get exp_values (periodicity h1) 0)\<rparr>\<rparr>
         in case update_state (decoration h2) of
              (dec, evs, Inl e) \<Rightarrow> (h2\<lparr>decoration := dec\<rparr>, evs, Inl e)
            | (dec, evs, Inr u) \<Rightarrow>
               (let h3 = h2\<lparr>decoration := dec\<rparr>
                in case increment_completion_date (periodicity h3) (next_completion_date h3) of
                     Inl e \<Rightarrow> (h3, evs, Inl e)
                   | Inr d \<Rightarrow>
                      (let h4 = h3\<lparr>next_completion_date := d\<rparr>
                       in if streak h4 > longest_streak h4
                          then (h4\<lparr>longest_streak := streak h4\<rparr>,
                                evs @ [New_record (name h4) (streak h4)], Inr True)
                          else (h4, evs @ [Checked_in (name h4) (streak h4)], Inr True))))
      else (h, [], Inr False))"

text \<open>
  The date after \<open>n\<close> increments, each being \<^verbatim>\<open>increment_completion_date\<close>; the first
  exception ends the iteration.
\<close>

fun iter_inc :: "int \<Rightarrow> nat \<Rightarrow> datetime \<Rightarrow> error + datetime" where
  "iter_inc p 0 d = Inr d"
| "iter_inc p (Suc n) d =
     (case increment_completion_date p d of Inl e \<Rightarrow> Inl e | Inr d' \<Rightarrow> iter_inc p n d')"

text \<open>
  A run of check-ins and fail sweeps on one habit, each with the time at which it is
  made. The result is the habit that the program goes on with and the exceptions that
  were caught on the way; \<open>None\<close> is a run that the program does not survive.

  \<^verbatim>\<open>calculate_fails\<close> is called by the main module at start-up, under no handler: an
  exception ends the program.

  \<^verbatim>\<open>check_in\<close> is called from \<^verbatim>\<open>main_menu\<close>. The menu called by the main module runs
  under no handler. But \<^verbatim>\<open>custom_input\<close>, which replaces \<^verbatim>\<open>input\<close>, calls \<^verbatim>\<open>main_menu\<close>
  when the user types \<^verbatim>\<open>x\<close>, and \<^verbatim>\<open>choice_check\<close> calls \<^verbatim>\<open>input\<close> in a block
  guarded by \<^verbatim>\<open>except ValueError\<close>: in a menu entered from such a prompt, a
  \<^verbatim>\<open>ValueError\<close> of the check-in is caught there, the prompt is shown again, and the
  program goes on with the habit as the exception left it. The flag of \<open>Check_in\<close>
  says whether the check-in is made under this handler. No handler catches
  \<^verbatim>\<open>OverflowError\<close>.
\<close>

datatype op = Check_in datetime bool | Fail_sweep datetime

fun run_ops :: "op list \<Rightarrow> habit \<Rightarrow> (habit \<times> error list) option" where
  "run_ops [] h = Some (h, [])"
| "run_ops (Check_in now handled # ops) h =
     (case check_in now h of
        (h1, evs, Inr b) \<Rightarrow> run_ops ops h1
      | (h1, evs, Inl (ValueError m)) \<Rightarrow>
          if handled then
            (case run_ops ops h1 of
               None \<Rightarrow> None
             | Some (h2, caught) \<Rightarrow> Some (h2, ValueError m # caught))
          else None
      | (h1, evs, Inl (OverflowError m)) \<Rightarrow> None)"
| "run_ops (Fail_sweep now # ops) h =
     (case calculate_fails now h of
        Some (h1, Inr b) \<Rightarrow> run_ops ops h1
      | Some (h1, Inl e) \<Rightarrow> None
      | None \<Rightarrow> None)"

section \<open>The deduction of experience at start-up\<close>

text \<open>
  One round of the loop \<^verbatim>\<open>for _ in range(habit.fails - original_fails)\<close> of the main
  module: \<^verbatim>\<open>/\<close> is Python's true division, and \<^verbatim>\<open>max(x, 0)\<close> is the larger of the two
  numbers.
\<close>

definition deduct_step :: "habit \<Rightarrow> habit \<times> event list \<times> (error + unit)" where
  "deduct_step h =
     (let deduction = of_int (dict_get exp_values (periodicity h) 0) / 2;
          dec1 = (decoration h)\<lparr>exp := max (exp (decoration h) - deduction) 0\<rparr>
      in case update_state dec1 of (dec2, evs, r) \<Rightarrow> (h\<lparr>decoration := dec2\<rparr>, evs, r))"

fun deduct_exp :: "nat \<Rightarrow> habit \<Rightarrow> habit \<times> event list \<times> (error + unit)" where
  "deduct_exp 0 h = (h, [], Inr ())"
| "deduct_exp (Suc n) h =
     (case deduct_step h of
        (h1, evs, Inl e) \<Rightarrow> (h1, evs, Inl e)
      | (h1, evs, Inr u) \<Rightarrow>
          (case deduct_exp n h1 of (h2, evs2, r) \<Rightarrow> (h2, evs @ evs2, r)))"

text \<open>
  What the loop \<^verbatim>\<open>for habit in habit_objects\<close> of the main module does to one habit
  at start-up. \<open>now1\<close> and \<open>now2\<close> are the values of the two calls of \<^verbatim>\<open>datetime.now()\<close>,
  the one in the main module and the one in \<^verbatim>\<open>calculate_fails\<close>; the returned flag
  says whether the habit is appended to \<^verbatim>\<open>failed_habits\<close>.
\<close>

definition startup_sweep ::
  "datetime \<Rightarrow> datetime \<Rightarrow> habit \<Rightarrow> (habit \<times> event list \<times> (error + bool)) option" where
  "startup_sweep now1 now2 habit =
     (let original_fails = fails habit;
          completion_date_end = replace_time (next_completion_date habit) 23 59 59
      in if dt_less completion_date_end now1 then
           (case calculate_fails now2 habit of
              None \<Rightarrow> None
            | Some (h1, Inl e) \<Rightarrow> Some (h1, [], Inl e)
            | Some (h1, Inr b) \<Rightarrow>
                if b \<and> fails h1 > original_fails then
                  (case deduct_exp (nat (fails h1 - original_fails)) h1 of
                     (h2, evs, Inl e) \<Rightarrow> Some (h2, evs, Inl e)
                   | (h2, evs, Inr u) \<Rightarrow> Some (h2, evs, Inr True))
                else Some (h1, [], Inr False))
         else Some (habit, [], Inr False))"

section \<open>Analytics\<close>

text \<open>The function that \<^verbatim>\<open>get_most_failed_habit\<close> folds over the list.\<close>

definition more_fails :: "habit \<Rightarrow> habit \<Rightarrow> habit" where
  "more_fails x y = (if fails x > fails y then x else y)"

text \<open>
  \<^verbatim>\<open>Analytics.get_most_failed_habit\<close>: \<^verbatim>\<open>functools.reduce\<close> without an initial value
  folds from the left, starting with the first element.
\<close>

definition get_most_failed_habit :: "habit list \<Rightarrow> string" where
  "get_most_failed_habit habit_objects =
     (case habit_objects of
        [] \<Rightarrow> ''No habits found.''
      | x # xs \<Rightarrow>
          (let habit_most_fails = foldl more_fails x xs
           in if fails habit_most_fails > 0 then name habit_most_fails
              else ''No fails were found.''))"

section \<open>Measures and example values\<close>

text \<open>
  The calendar part of the validity of a date, and a number that grows with the date:
  the proofs about the catch-up loop count the sweeps with it.
\<close>

definition wf_date :: "datetime \<Rightarrow> bool" where
  "wf_date d \<longleftrightarrow>
     1 \<le> month d \<and> month d \<le> 12 \<and> 1 \<le> day d \<and> day d \<le> days_in_month (year d) (month d)"

definition date_ord :: "datetime \<Rightarrow> nat" where
  "date_ord d = (year d * 12 + month d) * 32 + day d"

text \<open>
  \<^verbatim>\<open>datetime(y, m, d, h, mi, s, us)\<close>, and the decoration and the habit that
  \<^verbatim>\<open>test_habits.py\<close> sets up, the habit with a chosen periodicity and due date.
\<close>

definition dt :: "nat \<Rightarrow> nat \<Rightarrow> nat \<Rightarrow> nat \<Rightarrow> nat \<Rightarrow> nat \<Rightarrow> nat \<Rightarrow> datetime" where
  "dt y m d h mi s us =
     \<lparr>year = y, month = m, day = d, hour = h, minute = mi, second = s, microsecond = us\<rparr>"

definition couch :: decoration where
  "couch = \<lparr>decoration.name = ''Couch'', room = ''Living Room'', state = ''Old'', exp = 5\<rparr>"

definition running :: "int \<Rightarrow> datetime \<Rightarrow> habit" where
  "running p due =
     \<lparr>name = ''running'', periodicity = p, decoration = couch, next_completion_date = due,
      fails = 0, streak = 4, longest_streak = 7\<rparr>"

text \<open>A habit as \<^verbatim>\<open>create_new_habit\<close> leaves it: all counters and the experience at 0.\<close>

definition fresh :: "int \<Rightarrow> datetime \<Rightarrow> habit" where
  "fresh p due =
     \<lparr>name = ''reading'', periodicity = p, decoration = couch\<lparr>exp := 0\<rparr>,
      next_completion_date = due, fails = 0, streak = 0, longest_streak = 0\<rparr>"

section \<open>Properties of the decoration state\<close>

lemma sorted_states_eq:
  "sorted_states = [(64, ''Great''), (32, ''Good''), (16, ''Normal''), (0, ''Old'')]"
  by (simp add: sorted_states_def exp_states_def)

lemma first_reached_sorted:
  "first_reached sorted_states e old =
     (if 64 \<le> e then ''Great'' else if 32 \<le> e then ''Good''
      else if 16 \<le> e then ''Normal'' else if 0 \<le> e then ''Old'' else old)"
  by (simp add: sorted_states_eq)

lemma state_update_state:
  "state (fst (update_state d)) = first_reached sorted_states (exp d) (state d)"
  by (simp add: update_state_def Let_def split: sum.splits)

lemma exp_update_state: "exp (fst (update_state d)) = exp d"
  by (simp add: update_state_def Let_def split: sum.splits)

lemma labels_eq: "map snd exp_states = [''Old'', ''Normal'', ''Good'', ''Great'']"
  by (simp add: exp_states_def)

lemma index_of_Inr_iff: "(\<exists>i. index_of xs x = Inr i) \<longleftrightarrow> x \<in> set xs"
  by (induction xs) (auto split: sum.splits)

lemma update_state_returns:
  assumes "state d \<in> set (map snd exp_states)"
  shows "snd (snd (update_state d)) = Inr ()"
proof -
  obtain i where i: "index_of (map snd exp_states) (state d) = Inr i"
    using assms index_of_Inr_iff by metis
  have "first_reached sorted_states (exp d) (state d) \<in> set (map snd exp_states)"
    using assms by (simp add: first_reached_sorted labels_eq)
  then obtain j where
    j: "index_of (map snd exp_states) (first_reached sorted_states (exp d) (state d)) = Inr j"
    using index_of_Inr_iff by metis
  show ?thesis by (simp add: update_state_def Let_def i j)
qed

lemma index_of_labels:
  "index_of (map snd exp_states) ''Old'' = Inr 0"
  "index_of (map snd exp_states) ''Normal'' = Inr 1"
  "index_of (map snd exp_states) ''Good'' = Inr 2"
  "index_of (map snd exp_states) ''Great'' = Inr 3"
  by (simp_all add: labels_eq)

section \<open>Properties of the date arithmetic\<close>

lemma dt_le_iff_not_less: "dt_le a b \<longleftrightarrow> \<not> dt_less b a"
  by (simp add: dt_le_def dt_less_def not_less)

lemma dt_less_trans: "dt_less a b \<Longrightarrow> dt_less b c \<Longrightarrow> dt_less a c"
  unfolding dt_less_def by (rule less_trans)

lemma dt_le_refl: "dt_le a a"
  by (simp add: dt_le_def)

lemma start_le_end: "dt_le (completion_date_start h) (completion_date_end h)"
  by (simp add: dt_le_def dt_tuple_def completion_date_start_def completion_date_end_def
      replace_time_def)

lemma days_in_month_bounds: "28 \<le> days_in_month y m" "days_in_month y m \<le> 31"
  by (simp_all add: days_in_month_def)

lemma next_day_less: "dt_less d (next_day d)"
  by (simp add: dt_less_def dt_tuple_def next_day_def)

lemma next_day_time:
  "hour (next_day d) = hour d" "minute (next_day d) = minute d"
  "second (next_day d) = second d" "microsecond (next_day d) = microsecond d"
  by (simp_all add: next_day_def)

lemma next_day_wf: "wf_date d \<Longrightarrow> wf_date (next_day d)"
  using days_in_month_bounds(1)[of "year d" "month d + 1"] days_in_month_bounds(1)[of "year d + 1" 1]
  by (simp add: wf_date_def next_day_def)

lemma next_day_ord: "wf_date d \<Longrightarrow> date_ord d < date_ord (next_day d)"
  using days_in_month_bounds(2)[of "year d" "month d"]
  by (auto simp: wf_date_def next_day_def date_ord_def)

lemma next_day_year: "year d \<le> year (next_day d)"
  by (simp add: next_day_def)

lemma add_days_less: "0 < n \<Longrightarrow> dt_less d (add_days n d)"
proof (induction n arbitrary: d)
  case 0
  then show ?case by simp
next
  case (Suc n)
  show ?case
  proof (cases n)
    case 0
    then show ?thesis by (simp add: next_day_less)
  next
    case (Suc m)
    then have "dt_less (next_day d) (add_days n (next_day d))" using Suc.IH by simp
    with next_day_less[of d] show ?thesis by (auto intro: dt_less_trans)
  qed
qed

lemma add_days_time:
  "hour (add_days n d) = hour d" "minute (add_days n d) = minute d"
  "second (add_days n d) = second d" "microsecond (add_days n d) = microsecond d"
  by (induction n arbitrary: d) (simp_all add: next_day_time)

lemma add_days_wf: "wf_date d \<Longrightarrow> wf_date (add_days n d)"
  by (induction n arbitrary: d) (simp_all add: next_day_wf)

lemma add_days_ord: "wf_date d \<Longrightarrow> 0 < n \<Longrightarrow> date_ord d < date_ord (add_days n d)"
proof (induction n arbitrary: d)
  case 0
  then show ?case by simp
next
  case (Suc n)
  show ?case
  proof (cases n)
    case 0
    then show ?thesis using Suc.prems by (simp add: next_day_ord)
  next
    case (Suc m)
    then have "date_ord (next_day d) < date_ord (add_days n (next_day d))"
      using Suc.IH[of "next_day d"] Suc.prems by (simp add: next_day_wf)
    with next_day_ord[of d] Suc.prems show ?thesis by simp
  qed
qed

lemma add_days_year: "year d \<le> year (add_days n d)"
proof (induction n arbitrary: d)
  case 0
  then show ?case by simp
next
  case (Suc n)
  have "year d \<le> year (next_day d)" by (rule next_day_year)
  also have "\<dots> \<le> year (add_days n (next_day d))" by (rule Suc.IH)
  finally show ?case by simp
qed

lemma add_days_1: "add_days 1 d = next_day d"
  by simp

lemma add_days_7:
  "add_days 7 d = next_day (next_day (next_day (next_day (next_day (next_day (next_day d))))))"
  by (simp add: eval_nat_numeral)

lemma increment_less:
  assumes "increment_completion_date p d = Inr d'"
  shows "dt_less d d'"
proof -
  consider "p = 1" | "p = 2" | "p = 3" | "p = 4" | "p \<noteq> 1 \<and> p \<noteq> 2 \<and> p \<noteq> 3 \<and> p \<noteq> 4"
    by blast
  then show ?thesis
  proof cases
    case 1
    with assms have "d' = add_days 1 d"
      by (auto simp: increment_completion_date_def dt_add_def timedelta_def Let_def
          split: if_splits)
    then show ?thesis using add_days_less[of 1 d] by simp
  next
    case 2
    with assms have "d' = add_days 7 d"
      by (auto simp: increment_completion_date_def dt_add_def timedelta_def Let_def
          split: if_splits)
    then show ?thesis using add_days_less[of 7 d] by simp
  next
    case 3
    with assms have d': "d' = d\<lparr>year := year d + month d div 12, month := month d mod 12 + 1,
        day := min (day d) 28\<rparr>"
      by (auto simp: increment_completion_date_def replace_date_def split: if_splits)
    show ?thesis
    proof (cases "month d div 12 = 0")
      case True
      then have "month d mod 12 = month d" by (simp add: div_eq_0_iff)
      then show ?thesis using True by (simp add: d' dt_less_def dt_tuple_def)
    next
      case False
      then show ?thesis by (simp add: d' dt_less_def dt_tuple_def)
    qed
  next
    case 4
    with assms have "d' = d\<lparr>year := year d + 1, month := month d, day := day d\<rparr>"
      by (auto simp: increment_completion_date_def replace_date_def split: if_splits)
    then show ?thesis by (simp add: dt_less_def dt_tuple_def)
  next
    case 5
    with assms show ?thesis by (simp add: increment_completion_date_def)
  qed
qed

lemma increment_time:
  assumes "increment_completion_date p d = Inr d'"
  shows "hour d' = hour d \<and> minute d' = minute d \<and> second d' = second d \<and>
         microsecond d' = microsecond d"
  using assms
  by (auto simp: increment_completion_date_def dt_add_def replace_date_def Let_def add_days_time
      split: if_splits)

lemma increment_wf:
  assumes "increment_completion_date p d = Inr d'" and "wf_date d"
  shows "wf_date d'"
proof -
  consider "p = 1 \<or> p = 2" | "p = 3 \<or> p = 4" | "p \<noteq> 1 \<and> p \<noteq> 2 \<and> p \<noteq> 3 \<and> p \<noteq> 4"
    by blast
  then show ?thesis
  proof cases
    case 1
    with assms show ?thesis
      by (auto simp: increment_completion_date_def dt_add_def Let_def add_days_wf
          split: if_splits)
  next
    case 2
    with assms(1) show ?thesis
      by (auto simp: increment_completion_date_def replace_date_def wf_date_def
          split: if_splits)
  next
    case 3
    with assms(1) show ?thesis by (simp add: increment_completion_date_def)
  qed
qed

lemma increment_ord:
  assumes "increment_completion_date p d = Inr d'" and "wf_date d"
  shows "date_ord d < date_ord d'"
proof -
  consider "p = 1" | "p = 2" | "p = 3" | "p = 4" | "p \<noteq> 1 \<and> p \<noteq> 2 \<and> p \<noteq> 3 \<and> p \<noteq> 4"
    by blast
  then show ?thesis
  proof cases
    case 1
    with assms have "d' = add_days 1 d"
      by (auto simp: increment_completion_date_def dt_add_def timedelta_def Let_def
          split: if_splits)
    then show ?thesis using add_days_ord[of d 1] assms(2) by simp
  next
    case 2
    with assms have "d' = add_days 7 d"
      by (auto simp: increment_completion_date_def dt_add_def timedelta_def Let_def
          split: if_splits)
    then show ?thesis using add_days_ord[of d 7] assms(2) by simp
  next
    case 3
    with assms have d': "d' = d\<lparr>year := year d + month d div 12, month := month d mod 12 + 1,
        day := min (day d) 28\<rparr>"
      by (auto simp: increment_completion_date_def replace_date_def split: if_splits)
    have m: "1 \<le> month d" "month d \<le> 12" and dd: "1 \<le> day d" "day d \<le> 31"
      using assms(2) days_in_month_bounds(2)[of "year d" "month d"] by (auto simp: wf_date_def)
    show ?thesis
    proof (cases "month d = 12")
      case True
      then show ?thesis using dd by (simp add: d' date_ord_def)
    next
      case False
      then have "month d < 12" using m by simp
      then show ?thesis using dd by (simp add: d' date_ord_def)
    qed
  next
    case 4
    with assms have "d' = d\<lparr>year := year d + 1, month := month d, day := day d\<rparr>"
      by (auto simp: increment_completion_date_def replace_date_def split: if_splits)
    then show ?thesis by (simp add: date_ord_def)
  next
    case 5
    with assms show ?thesis by (simp add: increment_completion_date_def)
  qed
qed

lemma date_ord_mono:
  assumes "wf_date a" and "wf_date b"
    and "(year a, month a, day a) \<le> (year b, month b, day b)"
  shows "date_ord a \<le> date_ord b"
proof -
  have a: "month a \<le> 12" "day a \<le> 31"
    using assms(1) days_in_month_bounds(2)[of "year a" "month a"] by (auto simp: wf_date_def)
  have b: "1 \<le> month b" "1 \<le> day b" using assms(2) by (auto simp: wf_date_def)
  from assms(3) have "year a < year b \<or> (year a = year b \<and> month a < month b)
      \<or> (year a = year b \<and> month a = month b \<and> day a \<le> day b)"
    by (auto simp: less_eq_prod_def less_prod_def)
  then show ?thesis using a b by (auto simp: date_ord_def)
qed

lemma passed_deadline_ord:
  assumes "dt_less (completion_date_end h) now"
    and "wf_date (next_completion_date h)" and "wf_date now"
  shows "date_ord (next_completion_date h) \<le> date_ord now"
proof -
  let ?d = "next_completion_date h"
  have "(year ?d, month ?d, day ?d) \<le> (year now, month now, day now)"
    using assms(1)
    by (auto simp: dt_less_def dt_tuple_def completion_date_end_def replace_time_def
        less_eq_prod_def less_prod_def)
  then show ?thesis using assms(2,3) by (rule date_ord_mono[rotated 2])
qed

section \<open>Properties of the catch-up loop\<close>

lemma fails_loop_stop:
  "\<not> dt_less (completion_date_end h) now \<Longrightarrow>
     fails_loop now h fd = Some (h, fd, Inr ())"
  by (subst fails_loop.simps) simp

lemma fails_loop_raise:
  "dt_less (completion_date_end h) now \<Longrightarrow>
   increment_completion_date (periodicity h) (next_completion_date h) = Inl e \<Longrightarrow>
     fails_loop now h fd = Some (h, fd, Inl e)"
  by (subst fails_loop.simps) simp

lemma fails_loop_step:
  "dt_less (completion_date_end h) now \<Longrightarrow>
   increment_completion_date (periodicity h) (next_completion_date h) = Inr d \<Longrightarrow>
     fails_loop now h fd =
       fails_loop now (h\<lparr>next_completion_date := d, fails := fails h + 1\<rparr>) True"
  by (subst fails_loop.simps) simp

lemma fails_loop_terminates:
  assumes "wf_date now" and "wf_date (next_completion_date h)"
  shows "\<exists>r. fails_loop now h fd = Some r"
  using assms(2)
proof (induction "date_ord now + 1 - date_ord (next_completion_date h)"
    arbitrary: h fd rule: less_induct)
  case less
  show ?case
  proof (cases "dt_less (completion_date_end h) now")
    case False
    then show ?thesis by (simp add: fails_loop_stop)
  next
    case passed: True
    show ?thesis
    proof (cases "increment_completion_date (periodicity h) (next_completion_date h)")
      case (Inl e)
      with passed show ?thesis by (simp add: fails_loop_raise)
    next
      case (Inr d)
      let ?h = "h\<lparr>next_completion_date := d, fails := fails h + 1\<rparr>"
      have wf: "wf_date (next_completion_date ?h)"
        using increment_wf[OF Inr less.prems] by simp
      have "date_ord (next_completion_date h) < date_ord d"
        by (rule increment_ord[OF Inr less.prems])
      moreover have "date_ord (next_completion_date h) \<le> date_ord now"
        by (rule passed_deadline_ord[OF passed less.prems assms(1)])
      ultimately have
        "date_ord now + 1 - date_ord (next_completion_date ?h)
           < date_ord now + 1 - date_ord (next_completion_date h)"
        by simp
      from less.hyps[OF this wf] obtain r where "fails_loop now ?h True = Some r" by blast
      then have "fails_loop now h fd = Some r"
        using fails_loop_step[OF passed Inr, of fd] by simp
      then show ?thesis ..
    qed
  qed
qed

lemma fails_loop_iter:
  assumes "iter_inc (periodicity h) n (next_completion_date h) = Inr d"
    and "\<forall>k<n. \<exists>dk. iter_inc (periodicity h) k (next_completion_date h) = Inr dk \<and>
            dt_less (replace_time dk 23 59 59) now"
    and "\<not> dt_less (replace_time d 23 59 59) now"
  shows "fails_loop now h fd =
           Some (h\<lparr>next_completion_date := d, fails := fails h + int n\<rparr>, fd \<or> 0 < n, Inr ())"
  using assms
proof (induction n arbitrary: h fd)
  case 0
  then have "d = next_completion_date h" by simp
  with 0 show ?case by (simp add: fails_loop_stop completion_date_end_def)
next
  case (Suc n)
  from Suc.prems(2) have "\<exists>dk. iter_inc (periodicity h) 0 (next_completion_date h) = Inr dk \<and>
            dt_less (replace_time dk 23 59 59) now" by blast
  then have passed: "dt_less (completion_date_end h) now"
    by (simp add: completion_date_end_def)
  from Suc.prems(1) obtain d1 where
    inc: "increment_completion_date (periodicity h) (next_completion_date h) = Inr d1"
    and rest: "iter_inc (periodicity h) n d1 = Inr d"
    by (auto split: sum.splits)
  let ?h = "h\<lparr>next_completion_date := d1, fails := fails h + 1\<rparr>"
  have later: "\<forall>k<n. \<exists>dk. iter_inc (periodicity ?h) k (next_completion_date ?h) = Inr dk \<and>
            dt_less (replace_time dk 23 59 59) now"
  proof (intro allI impI)
    fix k assume "k < n"
    then have "Suc k < Suc n" by simp
    with Suc.prems(2) obtain dk where
      "iter_inc (periodicity h) (Suc k) (next_completion_date h) = Inr dk"
      "dt_less (replace_time dk 23 59 59) now" by blast
    then show "\<exists>dk. iter_inc (periodicity ?h) k (next_completion_date ?h) = Inr dk \<and>
            dt_less (replace_time dk 23 59 59) now"
      using inc by simp
  qed
  have "fails_loop now ?h True =
          Some (?h\<lparr>next_completion_date := d, fails := fails ?h + int n\<rparr>, True \<or> 0 < n, Inr ())"
    by (rule Suc.IH) (use rest later Suc.prems(3) in simp_all)
  then show ?case using fails_loop_step[OF passed inc, of fd] by simp
qed

lemma fails_loop_keeps:
  assumes "fails_loop now h fd = Some y"
  shows "streak (fst y) = streak h \<and> longest_streak (fst y) = longest_streak h \<and>
         periodicity (fst y) = periodicity h \<and> decoration (fst y) = decoration h \<and>
         name (fst y) = name h"
proof -
  let ?P = "\<lambda>(now::datetime) (h::habit) (fd::bool) (y::habit \<times> bool \<times> (error + unit)).
      streak (fst y) = streak h \<and> longest_streak (fst y) = longest_streak h \<and>
      periodicity (fst y) = periodicity h \<and> decoration (fst y) = decoration h \<and>
      name (fst y) = name h"
  have "?P now h fd y"
  proof (rule fails_loop.raw_induct[where P = ?P, OF _ assms])
    fix loop now h fd y
    assume IH: "\<And>now h fd y. loop now h fd = Some y \<Longrightarrow> ?P now h fd y"
      and body: "(if dt_less (completion_date_end h) now
           then case increment_completion_date (periodicity h) (next_completion_date h) of
                  Inl e \<Rightarrow> Some (h, fd, Inl e)
                | Inr d \<Rightarrow> loop now (h\<lparr>next_completion_date := d, fails := fails h + 1\<rparr>) True
           else Some (h, fd, Inr ())) = Some y"
    show "?P now h fd y"
    proof (cases "dt_less (completion_date_end h) now")
      case False
      with body show ?thesis by auto
    next
      case passed: True
      show ?thesis
      proof (cases "increment_completion_date (periodicity h) (next_completion_date h)")
        case (Inl e)
        with passed body show ?thesis by auto
      next
        case (Inr d)
        with passed body have
          "loop now (h\<lparr>next_completion_date := d, fails := fails h + 1\<rparr>) True = Some y"
          by simp
        from IH[OF this] show ?thesis by simp
      qed
    qed
  qed
  then show ?thesis .
qed

section \<open>Evaluation on concrete values\<close>

lemmas date_defs = dt_def valid_dt_def days_in_month_def is_leap_def MINYEAR_def MAXYEAR_def
  dt_less_def dt_le_def dt_tuple_def replace_time_def completion_date_start_def
  completion_date_end_def

lemmas inc_defs = increment_completion_date_def dt_add_def timedelta_def next_day_def
  replace_date_def add_days_7 Let_def

lemmas habit_defs = running_def fresh_def couch_def dict_get_def exp_values_def

section \<open>Properties of the fail sweep\<close>

lemma valid_dt_wf: "valid_dt d \<Longrightarrow> wf_date d"
  by (simp add: valid_dt_def wf_date_def)

lemma calculate_fails_returns:
  assumes "fails_loop now h False = Some (h1, fd, r)"
  shows "calculate_fails now h =
           Some (case r of
                   Inl e \<Rightarrow> (h1, Inl e)
                 | Inr u \<Rightarrow>
                     if fd then
                       ((if streak h1 > longest_streak h1
                         then h1\<lparr>longest_streak := streak h1\<rparr> else h1)\<lparr>streak := 0\<rparr>,
                        Inr True)
                     else (h1, Inr False))"
  using assms by (simp add: calculate_fails_def Let_def split: sum.splits)

lemma calculate_fails_iter:
  assumes "iter_inc (periodicity h) n (next_completion_date h) = Inr d"
    and "\<forall>k<n. \<exists>dk. iter_inc (periodicity h) k (next_completion_date h) = Inr dk \<and>
            dt_less (replace_time dk 23 59 59) now"
    and "\<not> dt_less (replace_time d 23 59 59) now"
  shows "calculate_fails now h =
           Some (h\<lparr>next_completion_date := d,
                   fails := fails h + int n,
                   longest_streak :=
                     (if 0 < n \<and> streak h > longest_streak h then streak h
                      else longest_streak h),
                   streak := (if 0 < n then 0 else streak h)\<rparr>,
                 Inr (0 < n))"
  unfolding calculate_fails_returns[OF fails_loop_iter[OF assms, of False]]
  by simp

lemma fails_loop_returned_iter:
  assumes "fails_loop now h fd = Some y"
  shows "\<forall>h1 fd1 u. y = (h1, fd1, Inr u) \<longrightarrow>
           (\<exists>n. iter_inc (periodicity h) n (next_completion_date h) =
                  Inr (next_completion_date h1) \<and>
                (\<forall>k<n. \<exists>dk. iter_inc (periodicity h) k (next_completion_date h) = Inr dk \<and>
                    dt_less (replace_time dk 23 59 59) now) \<and>
                \<not> dt_less (replace_time (next_completion_date h1) 23 59 59) now)"
proof -
  let ?P = "\<lambda>(now::datetime) (h::habit) (fd::bool) (y::habit \<times> bool \<times> (error + unit)).
      \<forall>h1 fd1 u. y = (h1, fd1, Inr u) \<longrightarrow>
           (\<exists>n. iter_inc (periodicity h) n (next_completion_date h) =
                  Inr (next_completion_date h1) \<and>
                (\<forall>k<n. \<exists>dk. iter_inc (periodicity h) k (next_completion_date h) = Inr dk \<and>
                    dt_less (replace_time dk 23 59 59) now) \<and>
                \<not> dt_less (replace_time (next_completion_date h1) 23 59 59) now)"
  have "?P now h fd y"
  proof (rule fails_loop.raw_induct[where P = ?P, OF _ assms])
    fix loop now h fd y
    assume IH: "\<And>now h fd y. loop now h fd = Some y \<Longrightarrow> ?P now h fd y"
      and body: "(if dt_less (completion_date_end h) now
           then case increment_completion_date (periodicity h) (next_completion_date h) of
                  Inl e \<Rightarrow> Some (h, fd, Inl e)
                | Inr d \<Rightarrow> loop now (h\<lparr>next_completion_date := d, fails := fails h + 1\<rparr>) True
           else Some (h, fd, Inr ())) = Some y"
    show "?P now h fd y"
    proof (cases "dt_less (completion_date_end h) now")
      case False
      with body have y: "y = (h, fd, Inr ())" by simp
      show ?thesis
      proof (intro allI impI)
        fix h1 fd1 u assume "y = (h1, fd1, Inr u)"
        with y have "h1 = h" by simp
        with False show "\<exists>n. iter_inc (periodicity h) n (next_completion_date h) =
                  Inr (next_completion_date h1) \<and>
                (\<forall>k<n. \<exists>dk. iter_inc (periodicity h) k (next_completion_date h) = Inr dk \<and>
                    dt_less (replace_time dk 23 59 59) now) \<and>
                \<not> dt_less (replace_time (next_completion_date h1) 23 59 59) now"
          by (intro exI[of _ 0]) (simp add: completion_date_end_def)
      qed
    next
      case passed: True
      show ?thesis
      proof (cases "increment_completion_date (periodicity h) (next_completion_date h)")
        case (Inl e)
        with passed body show ?thesis by auto
      next
        case (Inr d)
        let ?h = "h\<lparr>next_completion_date := d, fails := fails h + 1\<rparr>"
        from Inr passed body have "loop now ?h True = Some y" by simp
        from IH[OF this] have ih: "?P now ?h True y" .
        show ?thesis
        proof (intro allI impI)
          fix h1 fd1 u assume "y = (h1, fd1, Inr u)"
          with ih obtain n where
            it: "iter_inc (periodicity h) n d = Inr (next_completion_date h1)"
            and before: "\<forall>k<n. \<exists>dk. iter_inc (periodicity h) k d = Inr dk \<and>
                    dt_less (replace_time dk 23 59 59) now"
            and stop: "\<not> dt_less (replace_time (next_completion_date h1) 23 59 59) now"
            by auto
          have "\<forall>k<Suc n. \<exists>dk. iter_inc (periodicity h) k (next_completion_date h) = Inr dk \<and>
                    dt_less (replace_time dk 23 59 59) now"
          proof (intro allI impI)
            fix k assume k: "k < Suc n"
            show "\<exists>dk. iter_inc (periodicity h) k (next_completion_date h) = Inr dk \<and>
                    dt_less (replace_time dk 23 59 59) now"
            proof (cases k)
              case 0
              with passed show ?thesis by (simp add: completion_date_end_def)
            next
              case (Suc m)
              with k before Inr show ?thesis by simp
            qed
          qed
          with it stop Inr
          show "\<exists>n. iter_inc (periodicity h) n (next_completion_date h) =
                  Inr (next_completion_date h1) \<and>
                (\<forall>k<n. \<exists>dk. iter_inc (periodicity h) k (next_completion_date h) = Inr dk \<and>
                    dt_less (replace_time dk 23 59 59) now) \<and>
                \<not> dt_less (replace_time (next_completion_date h1) 23 59 59) now"
            by (intro exI[of _ "Suc n"]) simp
        qed
      qed
    qed
  qed
  then show ?thesis .
qed

lemma calculate_fails_returned_iter:
  assumes "calculate_fails now h = Some (h', Inr b)"
  shows "\<exists>n d. iter_inc (periodicity h) n (next_completion_date h) = Inr d \<and>
           (\<forall>k<n. \<exists>dk. iter_inc (periodicity h) k (next_completion_date h) = Inr dk \<and>
               dt_less (replace_time dk 23 59 59) now) \<and>
           \<not> dt_less (replace_time d 23 59 59) now"
proof -
  from assms obtain h1 fd u where "fails_loop now h False = Some (h1, fd, Inr u)"
    by (auto simp: calculate_fails_def split: option.splits sum.splits if_splits)
  from fails_loop_returned_iter[OF this] show ?thesis by blast
qed

section \<open>Properties of the check-in\<close>

lemma update_state_events:
  "New_record a b \<notin> set (fst (snd (update_state d)))"
  by (simp add: update_state_def Let_def split: sum.splits)

lemma update_state_triple:
  assumes "state d \<in> set (map snd exp_states)"
  shows "update_state d = (fst (update_state d), fst (snd (update_state d)), Inr ())"
  using update_state_returns[OF assms] by (metis prod.collapse)

lemma exp_values_get:
  "dict_get exp_values 1 0 = 1" "dict_get exp_values 2 0 = 8"
  "dict_get exp_values 3 0 = 16" "dict_get exp_values 4 0 = 32"
  by (simp_all add: dict_get_def exp_values_def)

lemma check_in_window:
  assumes "dt_le (completion_date_start h) now" and "dt_le now (completion_date_end h)"
    and "state (decoration h) \<in> set (map snd exp_states)"
    and "increment_completion_date (periodicity h) (next_completion_date h) = Inr d"
  shows "check_in now h =
           (h\<lparr>streak := streak h + 1,
              decoration := fst (update_state ((decoration h)
                \<lparr>exp := exp (decoration h) + of_int (dict_get exp_values (periodicity h) 0)\<rparr>)),
              next_completion_date := d,
              longest_streak := max (longest_streak h) (streak h + 1)\<rparr>,
            fst (snd (update_state ((decoration h)
                \<lparr>exp := exp (decoration h) + of_int (dict_get exp_values (periodicity h) 0)\<rparr>)))
              @ [if longest_streak h < streak h + 1 then New_record (name h) (streak h + 1)
                 else Checked_in (name h) (streak h + 1)],
            Inr True)"
proof -
  let ?dec = "(decoration h)
      \<lparr>exp := exp (decoration h) + of_int (dict_get exp_values (periodicity h) 0)\<rparr>"
  have not_early: "\<not> dt_less now (completion_date_start h)"
    using assms(1) by (simp add: dt_le_iff_not_less)
  have "state ?dec \<in> set (map snd exp_states)" using assms(3) by simp
  from update_state_triple[OF this]
  obtain dec evs where us: "update_state ?dec = (dec, evs, Inr ())" by blast
  show ?thesis
    by (simp add: check_in_def not_early assms(1,2,4) Let_def max_def us)
qed

lemma check_in_outside:
  assumes "\<not> (dt_le (completion_date_start h) now \<and> dt_le now (completion_date_end h))"
  shows "check_in now h =
           (h, if dt_less now (completion_date_start h) then [Too_early (name h)] else [],
            Inr False)"
  using assms by (auto simp: check_in_def dt_le_iff_not_less)

lemma check_in_inside:
  assumes "dt_le (completion_date_start h) now" and "dt_le now (completion_date_end h)"
  shows "snd (snd (check_in now h)) \<noteq> Inr False"
proof -
  have "\<not> dt_less now (completion_date_start h)"
    using assms(1) by (simp add: dt_le_iff_not_less)
  then show ?thesis using assms
    by (simp add: check_in_def Let_def split: prod.splits sum.splits)
qed

lemma too_early_outside:
  "dt_less now (completion_date_start h) \<Longrightarrow>
     \<not> (dt_le (completion_date_start h) now \<and> dt_le now (completion_date_end h))"
  by (simp add: dt_le_iff_not_less)

section \<open>Invariants of the streaks\<close>

lemma check_in_invariant:
  assumes "check_in now h = (h', evs, Inr b)" and "streak h \<le> longest_streak h"
  shows "streak h' \<le> longest_streak h'"
  using assms
  by (auto simp: check_in_def Let_def split: if_splits prod.splits sum.splits)

lemma check_in_longest_nonneg:
  assumes "check_in now h = (h', evs, Inr b)" and "0 \<le> longest_streak h"
  shows "0 \<le> longest_streak h'"
  using assms
  by (auto simp: check_in_def Let_def split: if_splits prod.splits sum.splits)

lemma calculate_fails_invariant:
  assumes "calculate_fails now h = Some (h', Inr b)"
    and "0 \<le> longest_streak h" and "streak h \<le> longest_streak h"
  shows "0 \<le> longest_streak h' \<and> streak h' \<le> longest_streak h'"
proof -
  from assms(1) obtain h1 fd r where loop: "fails_loop now h False = Some (h1, fd, r)"
    by (auto simp: calculate_fails_def split: option.splits)
  from fails_loop_keeps[OF loop] have keep: "streak h1 = streak h"
    "longest_streak h1 = longest_streak h" by simp_all
  from assms(1) show ?thesis
    unfolding calculate_fails_returns[OF loop]
    using keep assms(2,3) by (auto split: sum.splits if_splits)
qed

text \<open>A run in which every call has returned.\<close>

lemma run_ops_invariant:
  assumes "run_ops ops h = Some (h', [])"
    and "0 \<le> longest_streak h" and "streak h \<le> longest_streak h"
  shows "0 \<le> longest_streak h' \<and> streak h' \<le> longest_streak h'"
  using assms
proof (induction ops arbitrary: h)
  case Nil
  then show ?case by simp
next
  case (Cons x ops)
  show ?case
  proof (cases x)
    case (Check_in now handled)
    from Cons.prems(1) Check_in obtain h1 evs b where
      ci: "check_in now h = (h1, evs, Inr b)" and rest: "run_ops ops h1 = Some (h', [])"
      by (auto split: prod.splits sum.splits error.splits if_splits option.splits)
    show ?thesis
      by (rule Cons.IH[OF rest check_in_longest_nonneg[OF ci Cons.prems(2)]
            check_in_invariant[OF ci Cons.prems(3)]])
  next
    case (Fail_sweep now)
    from Cons.prems(1) Fail_sweep obtain h1 b where
      cf: "calculate_fails now h = Some (h1, Inr b)" and rest: "run_ops ops h1 = Some (h', [])"
      by (auto split: option.splits prod.splits sum.splits)
    from calculate_fails_invariant[OF cf Cons.prems(2,3)]
    have "0 \<le> longest_streak h1" "streak h1 \<le> longest_streak h1" by simp_all
    then show ?thesis by (rule Cons.IH[OF rest])
  qed
qed

section \<open>Properties of the analytics\<close>

lemma foldl_more_fails_last_max:
  "\<exists>i<length (x # xs).
      foldl more_fails x xs = (x # xs) ! i \<and>
      (\<forall>j<length (x # xs). fails ((x # xs) ! j) \<le> fails ((x # xs) ! i)) \<and>
      (\<forall>j. i < j \<and> j < length (x # xs) \<longrightarrow> fails ((x # xs) ! j) < fails ((x # xs) ! i))"
proof (induction xs rule: rev_induct)
  case Nil
  then show ?case by simp
next
  case (snoc y ys)
  then obtain i where i: "i < length (x # ys)"
    and m: "foldl more_fails x ys = (x # ys) ! i"
    and mx: "\<forall>j<length (x # ys). fails ((x # ys) ! j) \<le> fails ((x # ys) ! i)"
    and later: "\<forall>j. i < j \<and> j < length (x # ys) \<longrightarrow> fails ((x # ys) ! j) < fails ((x # ys) ! i)"
    by blast
  let ?zs = "x # ys @ [y]"
  have nth_old: "\<And>j. j < length (x # ys) \<Longrightarrow> ?zs ! j = (x # ys) ! j"
    by (metis append_Cons nth_append)
  have nth_new: "?zs ! length (x # ys) = y"
    by (metis append_Cons nth_append_length)
  show ?case
  proof (cases "fails ((x # ys) ! i) > fails y")
    case True
    have "foldl more_fails x (ys @ [y]) = ?zs ! i"
      using True m i by (simp add: more_fails_def nth_old)
    moreover have "\<forall>j<length ?zs. fails (?zs ! j) \<le> fails (?zs ! i)"
    proof (intro allI impI)
      fix j assume "j < length ?zs"
      then consider "j < length (x # ys)" | "j = length (x # ys)" by fastforce
      then show "fails (?zs ! j) \<le> fails (?zs ! i)"
      proof cases
        case 1
        then show ?thesis using mx i by (simp add: nth_old)
      next
        case 2
        then show ?thesis using True i nth_new by (simp add: nth_old)
      qed
    qed
    moreover have "\<forall>j. i < j \<and> j < length ?zs \<longrightarrow> fails (?zs ! j) < fails (?zs ! i)"
    proof (intro allI impI)
      fix j assume j: "i < j \<and> j < length ?zs"
      then consider "j < length (x # ys)" | "j = length (x # ys)" by fastforce
      then show "fails (?zs ! j) < fails (?zs ! i)"
      proof cases
        case 1
        then have "?zs ! j = (x # ys) ! j" by (rule nth_old)
        moreover from i have "?zs ! i = (x # ys) ! i" by (rule nth_old)
        moreover from later j 1 have "fails ((x # ys) ! j) < fails ((x # ys) ! i)" by blast
        ultimately show ?thesis by (simp only:)
      next
        case 2
        then show ?thesis using True i nth_new by (simp add: nth_old)
      qed
    qed
    ultimately show ?thesis using i by (intro exI[of _ i]) simp
  next
    case False
    let ?n = "length (x # ys)"
    have "foldl more_fails x (ys @ [y]) = ?zs ! ?n"
      using False m nth_new by (simp add: more_fails_def)
    moreover have "\<forall>j<length ?zs. fails (?zs ! j) \<le> fails (?zs ! ?n)"
    proof (intro allI impI)
      fix j assume "j < length ?zs"
      then consider "j < length (x # ys)" | "j = length (x # ys)" by fastforce
      then show "fails (?zs ! j) \<le> fails (?zs ! ?n)"
      proof cases
        case 1
        then have "fails (?zs ! j) \<le> fails ((x # ys) ! i)" using mx by (simp add: nth_old)
        also have "\<dots> \<le> fails y" using False by simp
        finally show ?thesis using nth_new by simp
      next
        case 2
        then show ?thesis by simp
      qed
    qed
    ultimately show ?thesis by (intro exI[of _ ?n]) simp
  qed
qed

section \<open>A property of the calendar\<close>

lemma days_in_month_next_year:
  "m \<noteq> 2 \<Longrightarrow> days_in_month (Suc y) m = days_in_month y m"
  by (simp add: days_in_month_def)

section \<open>The claims\<close>

text \<open>
  C1. The claim says that \<^verbatim>\<open>calculate_fails\<close> counts the missed deadlines of every
  habit with a periodicity of 1 to 4 and returns whether there was one. For a yearly
  habit due on 29 February 2028 and swept on 1 March, the loop finds the deadline
  passed and calls \<^verbatim>\<open>increment_completion_date\<close>, whose yearly branch raises
  \<^verbatim>\<open>ValueError\<close>: no fail is counted, the streak is not reset, and nothing is returned.
\<close>

theorem calculate_fails_raises_on_leap_day:
  "valid_dt (dt 2028 2 29 12 0 0 0) \<and> valid_dt (dt 2028 3 1 9 0 0 0) \<and>
   dt_less (completion_date_end (running 4 (dt 2028 2 29 12 0 0 0))) (dt 2028 3 1 9 0 0 0) \<and>
   calculate_fails (dt 2028 3 1 9 0 0 0) (running 4 (dt 2028 2 29 12 0 0 0)) =
     Some (running 4 (dt 2028 2 29 12 0 0 0),
           Inl (ValueError ''day is out of range for month''))"
proof -
  let ?h = "running 4 (dt 2028 2 29 12 0 0 0)"
  let ?now = "dt 2028 3 1 9 0 0 0"
  have passed: "dt_less (completion_date_end ?h) ?now"
    by (simp add: date_defs habit_defs)
  have inc: "increment_completion_date (periodicity ?h) (next_completion_date ?h) =
      Inl (ValueError ''day is out of range for month'')"
    by (simp add: date_defs inc_defs habit_defs)
  have "calculate_fails ?now ?h = Some (?h, Inl (ValueError ''day is out of range for month''))"
    unfolding calculate_fails_returns[OF fails_loop_raise[OF passed inc, of False]] by simp
  moreover have "valid_dt (dt 2028 2 29 12 0 0 0)" "valid_dt ?now"
    by (simp_all add: date_defs)
  ultimately show ?thesis using passed by blast
qed

text \<open>
  C2. The claim says that a check-in made inside the day of the due date succeeds, for
  every habit with a periodicity of 1 to 4. Two check-ins made inside that day do not.

  A yearly habit due on 29 February 2028 is checked in at 13:00 of that day: the streak
  and the experience are raised and the state is recomputed, then the yearly branch of
  \<^verbatim>\<open>increment_completion_date\<close> raises \<^verbatim>\<open>ValueError\<close>; the due date and
  \<open>longest_streak\<close> stay as they were and no success is returned.

  A weekly habit whose due date carries a microsecond, as a date made from
  \<^verbatim>\<open>datetime.now()\<close> does, is checked in at 00:00:00 of the due day:
  \<^verbatim>\<open>replace(hour=0, minute=0, second=0)\<close> keeps the microsecond, so the start that
  \<^verbatim>\<open>check_in\<close> computes lies after midnight and the check-in is rejected as too early.
\<close>

theorem check_in_inside_due_day_fails:
  "valid_dt (dt 2028 2 29 12 0 0 0) \<and> valid_dt (dt 2028 2 29 13 0 0 0) \<and>
   check_in (dt 2028 2 29 13 0 0 0) (running 4 (dt 2028 2 29 12 0 0 0)) =
     ((running 4 (dt 2028 2 29 12 0 0 0))
        \<lparr>streak := 5, decoration := couch\<lparr>state := ''Good'', exp := 37\<rparr>\<rparr>,
      [Upgraded ''Couch'' ''Good''], Inl (ValueError ''day is out of range for month'')) \<and>
   valid_dt (dt 2025 6 15 8 30 0 250000) \<and> valid_dt (dt 2025 6 15 0 0 0 0) \<and>
   check_in (dt 2025 6 15 0 0 0 0) (running 2 (dt 2025 6 15 8 30 0 250000)) =
     (running 2 (dt 2025 6 15 8 30 0 250000), [Too_early ''running''], Inr False)"
  by (simp add: check_in_def date_defs inc_defs habit_defs update_state_def
      first_reached_sorted labels_eq)

text \<open>
  C3. The claim says that \<^verbatim>\<open>check_in\<close> succeeds at exactly the start and the end
  instant of the due day. The bounds are made with \<^verbatim>\<open>replace(hour, minute, second)\<close>,
  which keeps the microsecond of the due date: for a daily habit due at
  12:00:00.500000 on 10 March 2024 the window runs from 00:00:00.500000 to
  23:59:59.500000 of that day. The check-in at 00:00:00.000000, the start of the day,
  is rejected as too early, with the message that asks to try again during this
  day; the check-in at 23:59:59.999999, the last instant of the day, returns failure.
\<close>

theorem check_in_rejects_start_of_day:
  "valid_dt (dt 2024 3 10 12 0 0 500000) \<and>
   completion_date_start (running 1 (dt 2024 3 10 12 0 0 500000)) =
     dt 2024 3 10 0 0 0 500000 \<and>
   completion_date_end (running 1 (dt 2024 3 10 12 0 0 500000)) =
     dt 2024 3 10 23 59 59 500000 \<and>
   check_in (dt 2024 3 10 0 0 0 0) (running 1 (dt 2024 3 10 12 0 0 500000)) =
     (running 1 (dt 2024 3 10 12 0 0 500000), [Too_early ''running''], Inr False) \<and>
   check_in (dt 2024 3 10 23 59 59 999999) (running 1 (dt 2024 3 10 12 0 0 500000)) =
     (running 1 (dt 2024 3 10 12 0 0 500000), [], Inr False)"
  by (simp add: check_in_def date_defs habit_defs)

text \<open>
  C4 (amended). For every date that a \<^verbatim>\<open>datetime\<close> can hold,
  \<^verbatim>\<open>increment_completion_date\<close> returns: Daily, the next calendar day; Weekly, the day
  seven calendar days later (both provided the result is not after year 9999);
  Monthly, the same day of the month, clamped to 28, in the next month, December
  rolling into January of the next year (provided that year is not after 9999), so
  every monthly result has a day of at most 28; Yearly, the same month and day in the
  next year, for every date other than 29 February before year 9999. The time of day
  is kept.
\<close>

theorem increment_completion_date_periods:
  assumes "valid_dt date"
  shows "(year (next_day date) \<le> MAXYEAR \<longrightarrow>
            increment_completion_date 1 date = Inr (next_day date)) \<and>
         (year (add_days 7 date) \<le> MAXYEAR \<longrightarrow>
            increment_completion_date 2 date = Inr (add_days 7 date)) \<and>
         (month date < 12 \<longrightarrow>
            increment_completion_date 3 date =
              Inr (date\<lparr>month := month date + 1, day := min (day date) 28\<rparr>)) \<and>
         (month date = 12 \<and> year date < MAXYEAR \<longrightarrow>
            increment_completion_date 3 date =
              Inr (date\<lparr>year := year date + 1, month := 1, day := min (day date) 28\<rparr>)) \<and>
         (\<forall>d'. increment_completion_date 3 date = Inr d' \<longrightarrow> day d' \<le> 28) \<and>
         (year date < MAXYEAR \<and> \<not> (month date = 2 \<and> day date = 29) \<longrightarrow>
            increment_completion_date 4 date = Inr (date\<lparr>year := year date + 1\<rparr>))"
proof -
  have v: "MINYEAR \<le> year date" "year date \<le> MAXYEAR" "1 \<le> month date" "month date \<le> 12"
    "1 \<le> day date" "day date \<le> days_in_month (year date) (month date)"
    using assms by (simp_all add: valid_dt_def)
  have daily: "year (next_day date) \<le> MAXYEAR \<longrightarrow>
      increment_completion_date 1 date = Inr (next_day date)"
    by (simp add: increment_completion_date_def dt_add_def timedelta_def)
  have weekly: "year (add_days 7 date) \<le> MAXYEAR \<longrightarrow>
      increment_completion_date 2 date = Inr (add_days 7 date)"
    by (simp add: increment_completion_date_def dt_add_def timedelta_def Let_def)
  have monthly: "month date < 12 \<longrightarrow>
      increment_completion_date 3 date =
        Inr (date\<lparr>month := month date + 1, day := min (day date) 28\<rparr>)"
    using v days_in_month_bounds(1)[of "year date" "Suc (month date)"]
    by (auto simp: increment_completion_date_def replace_date_def min_def)
  have december: "month date = 12 \<and> year date < MAXYEAR \<longrightarrow>
      increment_completion_date 3 date =
        Inr (date\<lparr>year := year date + 1, month := 1, day := min (day date) 28\<rparr>)"
    using v days_in_month_bounds(1)[of "Suc (year date)" 1]
    by (auto simp: increment_completion_date_def replace_date_def min_def MINYEAR_def)
  have clamp: "\<forall>d'. increment_completion_date 3 date = Inr d' \<longrightarrow> day d' \<le> 28"
    by (auto simp: increment_completion_date_def replace_date_def split: if_splits)
  have yearly: "year date < MAXYEAR \<and> \<not> (month date = 2 \<and> day date = 29) \<longrightarrow>
      increment_completion_date 4 date = Inr (date\<lparr>year := year date + 1\<rparr>)"
  proof
    assume a: "year date < MAXYEAR \<and> \<not> (month date = 2 \<and> day date = 29)"
    have "day date \<le> days_in_month (Suc (year date)) (month date)"
    proof (cases "month date = 2")
      case True
      with v(6) a have "day date \<le> 28" by (auto simp: days_in_month_def split: if_splits)
      then show ?thesis using days_in_month_bounds(1)[of "Suc (year date)" "month date"]
        by simp
    next
      case False
      then show ?thesis using v(6) by (simp add: days_in_month_next_year)
    qed
    then show "increment_completion_date 4 date = Inr (date\<lparr>year := year date + 1\<rparr>)"
      using v a by (simp add: increment_completion_date_def replace_date_def MINYEAR_def)
  qed
  from daily weekly monthly december clamp yearly show ?thesis by blast
qed

theorem increment_completion_date_periods_witness:
  "valid_dt (dt 2024 1 31 12 0 0 0) \<and>
   increment_completion_date 1 (dt 2024 1 31 12 0 0 0) = Inr (dt 2024 2 1 12 0 0 0) \<and>
   increment_completion_date 2 (dt 2024 1 31 12 0 0 0) = Inr (dt 2024 2 7 12 0 0 0) \<and>
   increment_completion_date 3 (dt 2024 1 31 12 0 0 0) = Inr (dt 2024 2 28 12 0 0 0) \<and>
   increment_completion_date 4 (dt 2024 1 31 12 0 0 0) = Inr (dt 2025 1 31 12 0 0 0) \<and>
   valid_dt (dt 2024 12 31 12 0 0 0) \<and>
   increment_completion_date 3 (dt 2024 12 31 12 0 0 0) = Inr (dt 2025 1 28 12 0 0 0)"
proof -
  let ?d = "dt 2024 1 31 12 0 0 0"
  let ?e = "dt 2024 12 31 12 0 0 0"
  have v: "valid_dt ?d" "valid_dt ?e" by (simp_all add: date_defs)
  have n: "next_day ?d = dt 2024 2 1 12 0 0 0" "add_days 7 ?d = dt 2024 2 7 12 0 0 0"
    by (simp_all add: date_defs inc_defs)
  have h: "year (next_day ?d) \<le> MAXYEAR" "year (add_days 7 ?d) \<le> MAXYEAR"
    "month ?d < 12" "year ?d < MAXYEAR \<and> \<not> (month ?d = 2 \<and> day ?d = 29)"
    unfolding n by (simp_all add: date_defs)
  have december: "month ?e = 12 \<and> year ?e < MAXYEAR" by (simp add: date_defs)
  from increment_completion_date_periods[OF v(1)] h n
  have jan: "increment_completion_date 1 ?d = Inr (dt 2024 2 1 12 0 0 0)"
    "increment_completion_date 2 ?d = Inr (dt 2024 2 7 12 0 0 0)"
    "increment_completion_date 3 ?d = Inr (dt 2024 2 28 12 0 0 0)"
    "increment_completion_date 4 ?d = Inr (dt 2025 1 31 12 0 0 0)"
    by (simp_all add: dt_def)
  from increment_completion_date_periods[OF v(2)] december
  have dec: "increment_completion_date 3 ?e = Inr (dt 2025 1 28 12 0 0 0)"
    by (simp add: dt_def)
  from v jan dec show ?thesis by simp
qed

text \<open>
  The claim as written fails on the last day that a \<^verbatim>\<open>datetime\<close> can hold, and, for
  the yearly period, on 29 February.
\<close>

theorem increment_completion_date_periods_counterexample:
  "valid_dt (dt 9999 12 31 12 0 0 0) \<and>
   increment_completion_date 1 (dt 9999 12 31 12 0 0 0) =
     Inl (OverflowError ''date value out of range'') \<and>
   valid_dt (dt 2024 2 29 12 0 0 0) \<and>
   increment_completion_date 4 (dt 2024 2 29 12 0 0 0) =
     Inl (ValueError ''day is out of range for month'')"
  by (simp add: date_defs inc_defs)

text \<open>
  C5. The claim says that no exception leaves \<^verbatim>\<open>increment_completion_date\<close> when the
  periodicity is one of 1 to 4. The code raises \<^verbatim>\<open>ValueError\<close> for the yearly period on
  29 February: \<^verbatim>\<open>calculate_completion_date\<close>, which \<^verbatim>\<open>Habit.__init__\<close> calls with the
  current time, fails for a yearly habit made on that day.
\<close>

theorem yearly_increment_raises_on_leap_day:
  "valid_dt (dt 2028 2 29 9 30 0 0) \<and>
   calculate_completion_date 4 (dt 2028 2 29 9 30 0 0) =
     Inl (ValueError ''day is out of range for month'') \<and>
   increment_completion_date 5 (dt 2028 2 29 9 30 0 0) =
     Inl (ValueError ''Invalid periodicity value.'')"
  by (simp add: calculate_completion_date_def date_defs inc_defs)

text \<open>
  C6 (amended). On an empty list \<^verbatim>\<open>get_most_failed_habit\<close> returns the string
  \<open>''No habits found.''\<close>. On any other list it takes the habit with the most fails, the
  last one in input order among those with the maximum, and returns that habit's name
  when its fails are above 0, the string \<open>''No fails were found.''\<close> otherwise.
\<close>

theorem get_most_failed_habit_last_maximum:
  "get_most_failed_habit [] = ''No habits found.'' \<and>
   (hs \<noteq> [] \<longrightarrow>
      (\<exists>i<length hs.
          (\<forall>j<length hs. fails (hs ! j) \<le> fails (hs ! i)) \<and>
          (\<forall>j. i < j \<and> j < length hs \<longrightarrow> fails (hs ! j) < fails (hs ! i)) \<and>
          get_most_failed_habit hs =
            (if fails (hs ! i) > 0 then name (hs ! i) else ''No fails were found.'')))"
proof (intro conjI impI)
  show "get_most_failed_habit [] = ''No habits found.''"
    by (simp add: get_most_failed_habit_def)
next
  assume "hs \<noteq> []"
  then obtain x xs where hs: "hs = x # xs" by (cases hs) auto
  from foldl_more_fails_last_max[of x xs] obtain i where "i < length (x # xs)"
    and "foldl more_fails x xs = (x # xs) ! i"
    and "\<forall>j<length (x # xs). fails ((x # xs) ! j) \<le> fails ((x # xs) ! i)"
    and "\<forall>j. i < j \<and> j < length (x # xs) \<longrightarrow> fails ((x # xs) ! j) < fails ((x # xs) ! i)"
    by blast
  then show "\<exists>i<length hs.
          (\<forall>j<length hs. fails (hs ! j) \<le> fails (hs ! i)) \<and>
          (\<forall>j. i < j \<and> j < length hs \<longrightarrow> fails (hs ! j) < fails (hs ! i)) \<and>
          get_most_failed_habit hs =
            (if fails (hs ! i) > 0 then name (hs ! i) else ''No fails were found.'')"
    unfolding hs by (intro exI[of _ i]) (simp add: get_most_failed_habit_def Let_def)
qed

theorem get_most_failed_habit_last_maximum_witness:
  "[(running 1 (dt 2024 3 10 12 0 0 0))\<lparr>fails := 2\<rparr>,
    (fresh 1 (dt 2024 3 10 12 0 0 0))\<lparr>fails := 2\<rparr>] \<noteq> [] \<and>
   get_most_failed_habit
     [(running 1 (dt 2024 3 10 12 0 0 0))\<lparr>fails := 2\<rparr>,
      (fresh 1 (dt 2024 3 10 12 0 0 0))\<lparr>fails := 2\<rparr>] = ''reading''"
proof -
  let ?a = "(running 1 (dt 2024 3 10 12 0 0 0))\<lparr>fails := 2\<rparr>"
  let ?b = "(fresh 1 (dt 2024 3 10 12 0 0 0))\<lparr>fails := 2\<rparr>"
  have ne: "[?a, ?b] \<noteq> []" by simp
  from get_most_failed_habit_last_maximum[of "[?a, ?b]"] ne obtain i where
    i: "i < length [?a, ?b]"
    and later: "\<forall>j. i < j \<and> j < length [?a, ?b] \<longrightarrow> fails ([?a, ?b] ! j) < fails ([?a, ?b] ! i)"
    and res: "get_most_failed_habit [?a, ?b] =
        (if fails ([?a, ?b] ! i) > 0 then name ([?a, ?b] ! i) else ''No fails were found.'')"
    by blast
  have "i = 1"
  proof (rule ccontr)
    assume "i \<noteq> 1"
    with i have "i = 0" by simp
    with later have "0 < (1::nat) \<and> 1 < length [?a, ?b] \<longrightarrow>
        fails ([?a, ?b] ! 1) < fails ([?a, ?b] ! 0)" by blast
    then show False by simp
  qed
  with res ne show ?thesis by (simp add: habit_defs)
qed

text \<open>
  The claim as written breaks ties by first occurrence and calls the result for no
  fails distinguishable from every genuine one. Two habits with 2 fails each give the
  name of the second; and a habit that has failed and bears the text of the signal as
  its name gives the same result as a habit without fails.
\<close>

theorem get_most_failed_habit_counterexample:
  "get_most_failed_habit
     [(running 1 (dt 2024 3 10 12 0 0 0))\<lparr>fails := 2\<rparr>,
      (fresh 1 (dt 2024 3 10 12 0 0 0))\<lparr>fails := 2\<rparr>] = ''reading'' \<and>
   name ((running 1 (dt 2024 3 10 12 0 0 0))\<lparr>fails := 2\<rparr>) = ''running'' \<and>
   get_most_failed_habit
     [(running 1 (dt 2024 3 10 12 0 0 0))\<lparr>name := ''No fails were found.'', fails := 3\<rparr>] =
   get_most_failed_habit [(running 1 (dt 2024 3 10 12 0 0 0))\<lparr>fails := 0\<rparr>]"
  by (simp add: get_most_failed_habit_def more_fails_def habit_defs)

text \<open>
  C7. The claim says that the deduction at start-up keeps \<open>exp\<close> an integer. The code
  halves the award with the true division \<^verbatim>\<open>/\<close>: for a daily habit (award 1) whose
  decoration has \<open>exp = 5\<close> and whose due day has passed once at start-up, the sweep
  counts one fail and the deduction leaves \<open>exp = 9/2\<close>, which is no integer. The
  floor at 0 holds.
\<close>

theorem startup_sweep_leaves_half:
  "startup_sweep (dt 2024 3 11 9 0 0 0) (dt 2024 3 11 9 0 0 0)
       (running 1 (dt 2024 3 10 12 0 0 0)) =
     Some ((running 1 (dt 2024 3 11 12 0 0 0))
             \<lparr>fails := 1, streak := 0, decoration := couch\<lparr>exp := 9 / 2\<rparr>\<rparr>,
           [], Inr True) \<and>
   (\<forall>k::int. exp (couch\<lparr>exp := 9 / 2\<rparr>) \<noteq> of_int k) \<and>
   0 \<le> exp (couch\<lparr>exp := 9 / 2\<rparr>)"
proof -
  let ?h = "running 1 (dt 2024 3 10 12 0 0 0)"
  let ?now = "dt 2024 3 11 9 0 0 0"
  have it: "iter_inc (periodicity ?h) (Suc 0) (next_completion_date ?h) =
      Inr (dt 2024 3 11 12 0 0 0)"
    by (simp add: date_defs inc_defs habit_defs)
  have passed: "\<forall>k<Suc 0. \<exists>dk. iter_inc (periodicity ?h) k (next_completion_date ?h) = Inr dk \<and>
            dt_less (replace_time dk 23 59 59) ?now"
    by (simp add: date_defs inc_defs habit_defs)
  have stop: "\<not> dt_less (replace_time (dt 2024 3 11 12 0 0 0) 23 59 59) ?now"
    by (simp add: date_defs)
  have sweep: "calculate_fails ?now ?h =
      Some ((running 1 (dt 2024 3 11 12 0 0 0))\<lparr>fails := 1, streak := 0\<rparr>, Inr True)"
    unfolding calculate_fails_iter[OF it passed stop] by (simp add: habit_defs)
  have late: "dt_less (replace_time (next_completion_date ?h) 23 59 59) ?now"
    by (simp add: date_defs habit_defs)
  have deduct: "deduct_step ((running 1 (dt 2024 3 11 12 0 0 0))\<lparr>fails := 1, streak := 0\<rparr>) =
      ((running 1 (dt 2024 3 11 12 0 0 0))
             \<lparr>fails := 1, streak := 0, decoration := couch\<lparr>exp := 9 / 2\<rparr>\<rparr>, [], Inr ())"
    by (simp add: deduct_step_def habit_defs update_state_def first_reached_sorted Let_def)
  have fails1: "fails ((running 1 (dt 2024 3 11 12 0 0 0))\<lparr>fails := 1, streak := 0\<rparr>) = 1"
    "fails ?h = 0"
    by (simp_all add: habit_defs)
  have run: "startup_sweep ?now ?now ?h =
     Some ((running 1 (dt 2024 3 11 12 0 0 0))
             \<lparr>fails := 1, streak := 0, decoration := couch\<lparr>exp := 9 / 2\<rparr>\<rparr>,
           [], Inr True)"
    by (simp add: startup_sweep_def Let_def late sweep fails1 deduct)
  have ne: "(9 / 2 :: rat) \<noteq> of_int k" for k :: int
  proof
    assume "(9 / 2 :: rat) = of_int k"
    then have "(9 :: rat) = of_int (2 * k)" by simp
    then have "(9 :: int) = 2 * k" by (metis of_int_eq_iff of_int_numeral)
    then show False by presburger
  qed
  show ?thesis using run ne by simp
qed

text \<open>
  C8 (amended). A check-in that returns keeps \<open>longest_streak \<ge> streak\<close>. A fail sweep
  that returns keeps it for every habit with \<open>longest_streak \<ge> 0\<close>. Hence after any
  run of check-ins and fail sweeps from a fresh habit (\<open>streak = longest_streak = 0\<close>)
  in which every call has returned, \<open>longest_streak \<ge> streak\<close> holds.
\<close>

theorem longest_streak_bounds_streak:
  "(streak h \<le> longest_streak h \<and> check_in now h = (h1, evs, Inr b) \<longrightarrow>
      streak h1 \<le> longest_streak h1) \<and>
   (0 \<le> longest_streak g \<and> streak g \<le> longest_streak g \<and>
    calculate_fails t g = Some (g1, Inr c) \<longrightarrow> streak g1 \<le> longest_streak g1) \<and>
   (streak f = 0 \<and> longest_streak f = 0 \<and> run_ops ops f = Some (f1, []) \<longrightarrow>
      streak f1 \<le> longest_streak f1)"
proof (intro conjI impI)
  assume "streak h \<le> longest_streak h \<and> check_in now h = (h1, evs, Inr b)"
  then show "streak h1 \<le> longest_streak h1"
    using check_in_invariant by blast
next
  assume "0 \<le> longest_streak g \<and> streak g \<le> longest_streak g \<and>
    calculate_fails t g = Some (g1, Inr c)"
  then show "streak g1 \<le> longest_streak g1"
    using calculate_fails_invariant by blast
next
  assume a: "streak f = 0 \<and> longest_streak f = 0 \<and> run_ops ops f = Some (f1, [])"
  then have "0 \<le> longest_streak f" "streak f \<le> longest_streak f" by simp_all
  with a show "streak f1 \<le> longest_streak f1"
    using run_ops_invariant by blast
qed

theorem longest_streak_bounds_streak_witness:
  "check_in (dt 2024 3 10 13 0 0 0) (fresh 1 (dt 2024 3 10 12 0 0 0)) =
     ((fresh 1 (dt 2024 3 11 12 0 0 0))
        \<lparr>streak := 1, longest_streak := 1, decoration := couch\<lparr>exp := 1\<rparr>\<rparr>,
      [New_record ''reading'' 1], Inr True) \<and>
   calculate_fails (dt 2024 3 12 9 0 0 0) (running 1 (dt 2024 3 10 12 0 0 0)) =
     Some ((running 1 (dt 2024 3 12 12 0 0 0))\<lparr>fails := 2, streak := 0\<rparr>, Inr True) \<and>
   run_ops [Check_in (dt 2024 3 10 13 0 0 0) False, Check_in (dt 2024 3 11 13 0 0 0) True,
            Check_in (dt 2024 3 12 13 0 0 0) False, Fail_sweep (dt 2024 3 15 9 0 0 0)]
       (fresh 1 (dt 2024 3 10 12 0 0 0)) =
     Some ((fresh 1 (dt 2024 3 15 12 0 0 0))
        \<lparr>fails := 2, longest_streak := 3, decoration := couch\<lparr>exp := 3\<rparr>\<rparr>, []) \<and>
   streak ((fresh 1 (dt 2024 3 15 12 0 0 0))
        \<lparr>fails := 2, longest_streak := 3, decoration := couch\<lparr>exp := 3\<rparr>\<rparr>)
     \<le> longest_streak ((fresh 1 (dt 2024 3 15 12 0 0 0))
        \<lparr>fails := 2, longest_streak := 3, decoration := couch\<lparr>exp := 3\<rparr>\<rparr>)"
proof -
  let ?h0 = "fresh 1 (dt 2024 3 10 12 0 0 0)"
  let ?h1 = "(fresh 1 (dt 2024 3 11 12 0 0 0))
        \<lparr>streak := 1, longest_streak := 1, decoration := couch\<lparr>exp := 1\<rparr>\<rparr>"
  let ?h2 = "(fresh 1 (dt 2024 3 12 12 0 0 0))
        \<lparr>streak := 2, longest_streak := 2, decoration := couch\<lparr>exp := 2\<rparr>\<rparr>"
  let ?h3 = "(fresh 1 (dt 2024 3 13 12 0 0 0))
        \<lparr>streak := 3, longest_streak := 3, decoration := couch\<lparr>exp := 3\<rparr>\<rparr>"
  let ?h4 = "(fresh 1 (dt 2024 3 15 12 0 0 0))
        \<lparr>fails := 2, longest_streak := 3, decoration := couch\<lparr>exp := 3\<rparr>\<rparr>"
  let ?g = "running 1 (dt 2024 3 10 12 0 0 0)"
  let ?g1 = "(running 1 (dt 2024 3 12 12 0 0 0))\<lparr>fails := 2, streak := 0\<rparr>"
  let ?ops = "[Check_in (dt 2024 3 10 13 0 0 0) False, Check_in (dt 2024 3 11 13 0 0 0) True,
        Check_in (dt 2024 3 12 13 0 0 0) False, Fail_sweep (dt 2024 3 15 9 0 0 0)]"
  have c1: "check_in (dt 2024 3 10 13 0 0 0) ?h0 = (?h1, [New_record ''reading'' 1], Inr True)"
    by (simp add: check_in_def date_defs inc_defs habit_defs update_state_def
        first_reached_sorted)
  have c2: "check_in (dt 2024 3 11 13 0 0 0) ?h1 = (?h2, [New_record ''reading'' 2], Inr True)"
    by (simp add: check_in_def date_defs inc_defs habit_defs update_state_def
        first_reached_sorted)
  have c3: "check_in (dt 2024 3 12 13 0 0 0) ?h2 = (?h3, [New_record ''reading'' 3], Inr True)"
    by (simp add: check_in_def date_defs inc_defs habit_defs update_state_def
        first_reached_sorted)
  have it: "iter_inc (periodicity ?h3) (Suc (Suc 0)) (next_completion_date ?h3) =
      Inr (dt 2024 3 15 12 0 0 0)"
    by (simp add: date_defs inc_defs habit_defs)
  have passed: "\<forall>k<Suc (Suc 0). \<exists>dk. iter_inc (periodicity ?h3) k (next_completion_date ?h3) = Inr dk \<and>
            dt_less (replace_time dk 23 59 59) (dt 2024 3 15 9 0 0 0)"
    by (simp add: less_Suc_eq all_conj_distrib date_defs inc_defs habit_defs)
  have stop: "\<not> dt_less (replace_time (dt 2024 3 15 12 0 0 0) 23 59 59) (dt 2024 3 15 9 0 0 0)"
    by (simp add: date_defs)
  have sweep: "calculate_fails (dt 2024 3 15 9 0 0 0) ?h3 = Some (?h4, Inr True)"
    unfolding calculate_fails_iter[OF it passed stop] by (simp add: habit_defs)
  have run: "run_ops ?ops ?h0 = Some (?h4, [])"
    by (simp add: c1 c2 c3 sweep)
  have git: "iter_inc (periodicity ?g) (Suc (Suc 0)) (next_completion_date ?g) = Inr (dt 2024 3 12 12 0 0 0)"
    by (simp add: date_defs inc_defs habit_defs)
  have gpassed: "\<forall>k<Suc (Suc 0). \<exists>dk. iter_inc (periodicity ?g) k (next_completion_date ?g) = Inr dk \<and>
            dt_less (replace_time dk 23 59 59) (dt 2024 3 12 9 0 0 0)"
    by (simp add: less_Suc_eq all_conj_distrib date_defs inc_defs habit_defs)
  have gstop: "\<not> dt_less (replace_time (dt 2024 3 12 12 0 0 0) 23 59 59) (dt 2024 3 12 9 0 0 0)"
    by (simp add: date_defs)
  have gsweep: "calculate_fails (dt 2024 3 12 9 0 0 0) ?g = Some (?g1, Inr True)"
    unfolding calculate_fails_iter[OF git gpassed gstop] by (simp add: habit_defs)
  have f0: "streak ?h0 = 0 \<and> longest_streak ?h0 = 0" "streak ?h0 \<le> longest_streak ?h0"
    "0 \<le> longest_streak ?g \<and> streak ?g \<le> longest_streak ?g"
    by (simp_all add: habit_defs)
  from longest_streak_bounds_streak[of ?h0 "dt 2024 3 10 13 0 0 0" ?h1 "[New_record ''reading'' 1]"
      True ?g "dt 2024 3 12 9 0 0 0" ?g1 True ?h0 ?ops ?h4]
    f0 c1 gsweep run
  show ?thesis by blast
qed

text \<open>
  The claim as written fails in two places. A habit with negative counters satisfies
  \<open>longest_streak \<ge> streak\<close> with \<open>streak = -5\<close> and \<open>longest_streak = -3\<close>; a sweep over
  one missed day sets \<open>streak\<close> to 0 and leaves \<open>longest_streak\<close> at \<open>-3\<close>. And a
  check-in that raises after \<^verbatim>\<open>streak += 1\<close> leaves the streak above \<open>longest_streak\<close>:
  a fresh yearly habit due on 29 February 2028, checked in on that day under the
  handler of \<^verbatim>\<open>choice_check\<close>, goes on with \<open>streak = 1\<close> and \<open>longest_streak = 0\<close>.
\<close>

theorem longest_streak_bounds_streak_counterexample:
  "streak ((running 1 (dt 2024 3 10 12 0 0 0))\<lparr>streak := - 5, longest_streak := - 3\<rparr>)
     \<le> longest_streak ((running 1 (dt 2024 3 10 12 0 0 0))\<lparr>streak := - 5, longest_streak := - 3\<rparr>) \<and>
   calculate_fails (dt 2024 3 11 9 0 0 0)
       ((running 1 (dt 2024 3 10 12 0 0 0))\<lparr>streak := - 5, longest_streak := - 3\<rparr>) =
     Some ((running 1 (dt 2024 3 11 12 0 0 0))
             \<lparr>fails := 1, streak := 0, longest_streak := - 3\<rparr>, Inr True) \<and>
   longest_streak ((running 1 (dt 2024 3 11 12 0 0 0))
             \<lparr>fails := 1, streak := 0, longest_streak := - 3\<rparr>)
     < streak ((running 1 (dt 2024 3 11 12 0 0 0))
             \<lparr>fails := 1, streak := 0, longest_streak := - 3\<rparr>) \<and>
   streak (fresh 4 (dt 2028 2 29 12 0 0 0)) = 0 \<and>
   longest_streak (fresh 4 (dt 2028 2 29 12 0 0 0)) = 0 \<and>
   run_ops [Check_in (dt 2028 2 29 13 0 0 0) True] (fresh 4 (dt 2028 2 29 12 0 0 0)) =
     Some ((fresh 4 (dt 2028 2 29 12 0 0 0))
             \<lparr>streak := 1, decoration := couch\<lparr>state := ''Good'', exp := 32\<rparr>\<rparr>,
           [ValueError ''day is out of range for month'']) \<and>
   longest_streak ((fresh 4 (dt 2028 2 29 12 0 0 0))
             \<lparr>streak := 1, decoration := couch\<lparr>state := ''Good'', exp := 32\<rparr>\<rparr>)
     < streak ((fresh 4 (dt 2028 2 29 12 0 0 0))
             \<lparr>streak := 1, decoration := couch\<lparr>state := ''Good'', exp := 32\<rparr>\<rparr>)"
proof -
  let ?g = "(running 1 (dt 2024 3 10 12 0 0 0))\<lparr>streak := - 5, longest_streak := - 3\<rparr>"
  let ?g1 = "(running 1 (dt 2024 3 11 12 0 0 0))
             \<lparr>fails := 1, streak := 0, longest_streak := - 3\<rparr>"
  let ?f = "fresh 4 (dt 2028 2 29 12 0 0 0)"
  let ?f1 = "(fresh 4 (dt 2028 2 29 12 0 0 0))
             \<lparr>streak := 1, decoration := couch\<lparr>state := ''Good'', exp := 32\<rparr>\<rparr>"
  have it: "iter_inc (periodicity ?g) (Suc 0) (next_completion_date ?g) =
      Inr (dt 2024 3 11 12 0 0 0)"
    by (simp add: date_defs inc_defs habit_defs)
  have passed: "\<forall>k<Suc 0. \<exists>dk. iter_inc (periodicity ?g) k (next_completion_date ?g) = Inr dk \<and>
            dt_less (replace_time dk 23 59 59) (dt 2024 3 11 9 0 0 0)"
    by (simp add: date_defs inc_defs habit_defs)
  have stop: "\<not> dt_less (replace_time (dt 2024 3 11 12 0 0 0) 23 59 59) (dt 2024 3 11 9 0 0 0)"
    by (simp add: date_defs)
  have sweep: "calculate_fails (dt 2024 3 11 9 0 0 0) ?g = Some (?g1, Inr True)"
    unfolding calculate_fails_iter[OF it passed stop] by (simp add: habit_defs)
  have ci: "check_in (dt 2028 2 29 13 0 0 0) ?f =
      (?f1, [Upgraded ''Couch'' ''Good''], Inl (ValueError ''day is out of range for month''))"
    by (simp add: check_in_def date_defs inc_defs habit_defs update_state_def
        first_reached_sorted labels_eq)
  have run: "run_ops [Check_in (dt 2028 2 29 13 0 0 0) True] ?f =
      Some (?f1, [ValueError ''day is out of range for month''])"
    by (simp add: ci)
  have vals: "streak ?g \<le> longest_streak ?g" "longest_streak ?g1 < streak ?g1"
    "streak ?f = 0" "longest_streak ?f = 0" "longest_streak ?f1 < streak ?f1"
    by (simp_all add: habit_defs)
  from sweep run vals show ?thesis by blast
qed

text \<open>
  C9. For a decoration with \<open>exp \<ge> 0\<close>, \<^verbatim>\<open>update_state\<close> leaves in \<open>state\<close> the label of
  the highest threshold of the table that does not exceed \<open>exp\<close> (15 gives Old, 16 gives
  Normal, 64 gives Great); the resulting state depends on \<open>exp\<close> only; and when \<open>exp\<close> is
  raised and \<^verbatim>\<open>update_state\<close> is called again, the rank of the state (its position among
  the labels, as the source looks it up) does not go down.
\<close>

theorem update_state_highest_threshold:
  assumes "0 \<le> exp d"
  shows "(\<exists>t. (t, state (fst (update_state d))) \<in> set exp_states \<and> of_int t \<le> exp d \<and>
            (\<forall>(t', s') \<in> set exp_states. of_int t' \<le> exp d \<longrightarrow> t' \<le> t))
       \<and> (exp d = 15 \<longrightarrow> state (fst (update_state d)) = ''Old'')
       \<and> (exp d = 16 \<longrightarrow> state (fst (update_state d)) = ''Normal'')
       \<and> (exp d = 64 \<longrightarrow> state (fst (update_state d)) = ''Great'')
       \<and> (exp d2 = exp d \<longrightarrow> state (fst (update_state d2)) = state (fst (update_state d)))
       \<and> (exp d \<le> e' \<longrightarrow>
           (\<exists>i j. index_of (map snd exp_states) (state (fst (update_state d))) = Inr i \<and>
                  index_of (map snd exp_states)
                    (state (fst (update_state ((fst (update_state d))\<lparr>exp := e'\<rparr>)))) = Inr j \<and>
                  i \<le> j))"
proof -
  let ?s = "state (fst (update_state d))"
  have s: "?s = (if 64 \<le> exp d then ''Great'' else if 32 \<le> exp d then ''Good''
                 else if 16 \<le> exp d then ''Normal'' else ''Old'')"
    using assms by (simp add: state_update_state first_reached_sorted)
  have highest: "\<exists>t. (t, ?s) \<in> set exp_states \<and> of_int t \<le> exp d \<and>
            (\<forall>(t', s') \<in> set exp_states. of_int t' \<le> exp d \<longrightarrow> t' \<le> t)"
  proof (cases "64 \<le> exp d")
    case True
    then show ?thesis using assms by (intro exI[of _ 64]) (simp add: s exp_states_def)
  next
    case n64: False
    show ?thesis
    proof (cases "32 \<le> exp d")
      case True
      then show ?thesis using assms n64 by (intro exI[of _ 32]) (simp add: s exp_states_def)
    next
      case n32: False
      show ?thesis
      proof (cases "16 \<le> exp d")
        case True
        then show ?thesis using assms n64 n32
          by (intro exI[of _ 16]) (simp add: s exp_states_def)
      next
        case False
        then show ?thesis using assms n64 n32
          by (intro exI[of _ 0]) (simp add: s exp_states_def)
      qed
    qed
  qed
  have ex15: "exp d = 15 \<longrightarrow> ?s = ''Old''" by (simp add: s)
  have ex16: "exp d = 16 \<longrightarrow> ?s = ''Normal''" by (simp add: s)
  have ex64: "exp d = 64 \<longrightarrow> ?s = ''Great''" by (simp add: s)
  have pure: "exp d2 = exp d \<longrightarrow> state (fst (update_state d2)) = ?s"
    using assms by (simp add: state_update_state first_reached_sorted)
  have mono: "exp d \<le> e' \<longrightarrow>
           (\<exists>i j. index_of (map snd exp_states) ?s = Inr i \<and>
                  index_of (map snd exp_states)
                    (state (fst (update_state ((fst (update_state d))\<lparr>exp := e'\<rparr>)))) = Inr j \<and>
                  i \<le> j)"
  proof
    assume le: "exp d \<le> e'"
    then have e': "0 \<le> e'" using assms by simp
    have s': "state (fst (update_state ((fst (update_state d))\<lparr>exp := e'\<rparr>))) =
                (if 64 \<le> e' then ''Great'' else if 32 \<le> e' then ''Good''
                 else if 16 \<le> e' then ''Normal'' else ''Old'')"
      using e' by (simp add: state_update_state first_reached_sorted)
    show "\<exists>i j. index_of (map snd exp_states) ?s = Inr i \<and>
                  index_of (map snd exp_states)
                    (state (fst (update_state ((fst (update_state d))\<lparr>exp := e'\<rparr>)))) = Inr j \<and>
                  i \<le> j"
      unfolding s s' using le by (simp add: index_of_labels)
  qed
  from highest ex15 ex16 ex64 pure mono show ?thesis by blast
qed

theorem update_state_highest_threshold_witness:
  "0 \<le> exp (couch\<lparr>exp := 16\<rparr>) \<and>
   state (fst (update_state (couch\<lparr>exp := 16\<rparr>))) = ''Normal'' \<and>
   state (fst (update_state (couch\<lparr>exp := 16, state := ''Great''\<rparr>))) = ''Normal'' \<and>
   index_of (map snd exp_states) (state (fst (update_state (couch\<lparr>exp := 16\<rparr>)))) = Inr 1 \<and>
   index_of (map snd exp_states)
     (state (fst (update_state ((fst (update_state (couch\<lparr>exp := 16\<rparr>)))\<lparr>exp := 64\<rparr>)))) =
     Inr 3"
proof -
  let ?d = "couch\<lparr>exp := 16\<rparr>"
  let ?d2 = "couch\<lparr>exp := 16, state := ''Great''\<rparr>"
  have pos: "0 \<le> exp ?d" by simp
  have same: "exp ?d2 = exp ?d" and e16: "exp ?d = 16" and le: "exp ?d \<le> 64" by simp_all
  from update_state_highest_threshold[OF pos, of ?d2 64] same e16 le
  have normal: "state (fst (update_state ?d)) = ''Normal''"
    and pure: "state (fst (update_state ?d2)) = state (fst (update_state ?d))"
    and ranks: "\<exists>i j. index_of (map snd exp_states) (state (fst (update_state ?d))) = Inr i \<and>
       index_of (map snd exp_states)
         (state (fst (update_state ((fst (update_state ?d))\<lparr>exp := 64\<rparr>)))) = Inr j \<and> i \<le> j"
    by blast+
  have great: "state (fst (update_state ((fst (update_state ?d))\<lparr>exp := 64\<rparr>))) = ''Great''"
    by (simp add: state_update_state first_reached_sorted)
  show ?thesis
    using pos normal pure ranks unfolding great by (simp add: index_of_labels)
qed

text \<open>
  C10. The catch-up loop of \<^verbatim>\<open>calculate_fails\<close> ends for every habit and every time
  \<open>now\<close> (the dates being values that a \<^verbatim>\<open>datetime\<close> can hold): the call returns or
  raises, it never runs forever; and whenever \<^verbatim>\<open>increment_completion_date\<close> returns a
  date, that date is strictly later than the one it was given.
\<close>

theorem calculate_fails_terminates:
  assumes "valid_dt now" and "valid_dt (next_completion_date h)"
  shows "(\<exists>r. calculate_fails now h = Some r) \<and>
         (\<forall>d d'. increment_completion_date (periodicity h) d = Inr d' \<longrightarrow> dt_less d d')"
proof -
  from fails_loop_terminates[OF valid_dt_wf[OF assms(1)] valid_dt_wf[OF assms(2)], of False]
  obtain h1 fd r where "fails_loop now h False = Some (h1, fd, r)"
    by (metis prod_cases3)
  from calculate_fails_returns[OF this] have "\<exists>r. calculate_fails now h = Some r" ..
  then show ?thesis using increment_less by blast
qed

theorem calculate_fails_terminates_witness:
  "valid_dt (dt 2024 3 12 9 0 0 0) \<and> valid_dt (dt 2024 3 10 12 0 0 0) \<and>
   (\<exists>r. calculate_fails (dt 2024 3 12 9 0 0 0) (running 1 (dt 2024 3 10 12 0 0 0)) = Some r) \<and>
   increment_completion_date 1 (dt 2024 3 10 12 0 0 0) = Inr (dt 2024 3 11 12 0 0 0) \<and>
   dt_less (dt 2024 3 10 12 0 0 0) (dt 2024 3 11 12 0 0 0)"
proof -
  let ?h = "running 1 (dt 2024 3 10 12 0 0 0)"
  have v1: "valid_dt (dt 2024 3 12 9 0 0 0)"
    by (simp add: date_defs)
  have v2: "valid_dt (next_completion_date ?h)"
    by (simp add: date_defs habit_defs)
  have inc: "increment_completion_date (periodicity ?h) (dt 2024 3 10 12 0 0 0) =
      Inr (dt 2024 3 11 12 0 0 0)"
    by (simp add: date_defs inc_defs habit_defs)
  from calculate_fails_terminates[OF v1 v2] inc
  have "\<exists>r. calculate_fails (dt 2024 3 12 9 0 0 0) ?h = Some r"
    and "dt_less (dt 2024 3 10 12 0 0 0) (dt 2024 3 11 12 0 0 0)"
    by blast+
  then show ?thesis using v1 v2 inc by (simp add: habit_defs)
qed

end
